theory Spec2Isabelle
  imports Complex_Main "HOL-Library.Word"
begin

unbundle bit_operations_syntax

section \<open>The store handle declared in db.h (second part of misc.go)\<close>


text \<open>
  The prepared statement slots of \<^verbatim>\<open>struct ZTLF_DB\<close>, one constructor per
  \<^verbatim>\<open>sqlite3_stmt *\<close> field, in the order of the declaration.
\<close>

datatype stmt_slot =
    sAddRecord
  | sGetAllRecords
  | sGetMaxRecordGoff
  | sGetRecordHistoryById
  | sGetRecordGoffByHash
  | sGetRecordScoreByGoff
  | sGetDanglingLinks
  | sDeleteDanglingLinks
  | sDeleteWantedHash
  | sAddDanglingLink
  | sAddWantedHash
  | sAddHole
  | sFlagRecordWeightApplicationPending
  | sGetPeerFirstConnectTime
  | sAddUpdatePeer
  | sAddPotentialPeer
  | sGetRecordsForWeightApplication
  | sGetHoles
  | sDeleteHole
  | sUpdatePendingHoleCount
  | sDeleteCompletedPending
  | sGetPendingCount

definition ZTLF_DB_stmts :: "stmt_slot list" where
  "ZTLF_DB_stmts =
    [sAddRecord, sGetAllRecords, sGetMaxRecordGoff, sGetRecordHistoryById,
     sGetRecordGoffByHash, sGetRecordScoreByGoff, sGetDanglingLinks, sDeleteDanglingLinks,
     sDeleteWantedHash, sAddDanglingLink, sAddWantedHash, sAddHole,
     sFlagRecordWeightApplicationPending, sGetPeerFirstConnectTime, sAddUpdatePeer,
     sAddPotentialPeer, sGetRecordsForWeightApplication, sGetHoles, sDeleteHole,
     sUpdatePendingHoleCount, sDeleteCompletedPending, sGetPendingCount]"

text \<open>What each statement is for, read off its name.\<close>

datatype query_shape =
    RecordInsertion | RecordLookup | MaxGoff | HistoryById | ScoreByGoff
  | DanglingLinks | WantedHashes | Holes | PendingWeight | PeerBookkeeping

fun shape_of :: "stmt_slot \<Rightarrow> query_shape" where
  "shape_of sAddRecord = RecordInsertion"
| "shape_of sGetAllRecords = RecordLookup"
| "shape_of sGetMaxRecordGoff = MaxGoff"
| "shape_of sGetRecordHistoryById = HistoryById"
| "shape_of sGetRecordGoffByHash = RecordLookup"
| "shape_of sGetRecordScoreByGoff = ScoreByGoff"
| "shape_of sGetDanglingLinks = DanglingLinks"
| "shape_of sDeleteDanglingLinks = DanglingLinks"
| "shape_of sDeleteWantedHash = WantedHashes"
| "shape_of sAddDanglingLink = DanglingLinks"
| "shape_of sAddWantedHash = WantedHashes"
| "shape_of sAddHole = Holes"
| "shape_of sFlagRecordWeightApplicationPending = PendingWeight"
| "shape_of sGetPeerFirstConnectTime = PeerBookkeeping"
| "shape_of sAddUpdatePeer = PeerBookkeeping"
| "shape_of sAddPotentialPeer = PeerBookkeeping"
| "shape_of sGetRecordsForWeightApplication = PendingWeight"
| "shape_of sGetHoles = Holes"
| "shape_of sDeleteHole = Holes"
| "shape_of sUpdatePendingHoleCount = PendingWeight"
| "shape_of sDeleteCompletedPending = PendingWeight"
| "shape_of sGetPendingCount = PendingWeight"

text \<open>
  The locks of \<^verbatim>\<open>struct ZTLF_DB\<close>: \<^verbatim>\<open>pthread_mutex_t dbLock\<close>,
  \<^verbatim>\<open>pthread_mutex_t graphNodeLocks[ZTLF_DB_GRAPH_NODE_LOCK_ARRAY_SIZE]\<close> and
  \<^verbatim>\<open>pthread_rwlock_t gfLock\<close>. A C array has its declared length, so the array is a
  type of lists of exactly that length.
\<close>

datatype pthread_mutex_t = MutexFree | MutexHeld

datatype pthread_rwlock_t = RwFree | RwReaders nat | RwWriter

typedef graph_node_lock_array =
  "{ls :: pthread_mutex_t list. length ls = 197}"
  by (rule exI [of _ "replicate 197 MutexFree"]) simp

setup_lifting type_definition_graph_node_lock_array


record ZTLF_DB_locks =
  dbLock :: pthread_mutex_t
  graphNodeLocks :: graph_node_lock_array
  gfLock :: pthread_rwlock_t



text \<open>Primality by trial division, as a computation.\<close>

definition is_prime :: "nat \<Rightarrow> bool" where
  "is_prime n = (1 < n \<and> list_all (\<lambda>d. n mod d \<noteq> 0) [2..<n])"

section \<open>The HTTP client of remotenode.go\<close>

type_synonym bytes = "8 word list"

text \<open>
  Errors as values. \<open>ErrInvalidParameter\<close> is the package's own error value and
  \<open>ErrAPI\<close> its API error (status code and message); \<open>ErrGo\<close> stands for an
  error returned by a Go library call (net/http, net/url, compress/gzip, io,
  encoding/json), named by the call; \<open>ErrRecord\<close> for one returned by the record
  decoder.
\<close>

datatype lf_error =
    ErrInvalidParameter
  | ErrAPI int string
  | ErrGo string
  | ErrRecord string

definition APIMaxResponseSize :: nat where
  "APIMaxResponseSize = 4194304"

record http_request =
  req_method :: string
  req_url :: string
  req_body :: "bytes option"

record http_response =
  StatusCode :: int
  Uncompressed :: bool
  ContentEncoding :: string
  Body :: "string + bytes"

text \<open>
  What the functions of this file call and do not define: the Go library and the parts of
  the package that are in other files. \<open>'m\<close> is the type of a request message,
  \<open>'r\<close> the type \<^verbatim>\<open>Record\<close>.
\<close>

record ('m, 'r) remote_env =
  json_Marshal :: "'m \<Rightarrow> string + bytes"
  http_NewRequest :: "string \<Rightarrow> string \<Rightarrow> bytes option \<Rightarrow> string + http_request"
  httpClient_Do :: "http_request \<Rightarrow> string + http_response"
  gzip_read :: "bytes \<Rightarrow> string + bytes"
  json_Unmarshal_ErrAPI :: "bytes \<Rightarrow> string + (int \<times> string)"
  Base62Encode :: "bytes \<Rightarrow> string"
  NewRecordFromBytes :: "bytes \<Rightarrow> lf_error + 'r"

text \<open>\<^verbatim>\<open>strings.Contains\<close>.\<close>

fun has_prefix :: "string \<Rightarrow> string \<Rightarrow> bool" where
  "has_prefix s [] = True"
| "has_prefix [] (c # cs) = False"
| "has_prefix (d # ds) (c # cs) = (d = c \<and> has_prefix ds cs)"

fun Contains :: "string \<Rightarrow> string \<Rightarrow> bool" where
  "Contains [] sub = (sub = [])"
| "Contains (d # ds) sub = (has_prefix (d # ds) sub \<or> Contains ds sub)"

text \<open>
  \<^verbatim>\<open>apiRequest\<close>. The second component is the list of requests sent so far: a request
  is on the network once \<^verbatim>\<open>httpClient.Do\<close> is called. The body is read through a
  \<^verbatim>\<open>LimitedReader\<close> of \<open>APIMaxResponseSize\<close> bytes, after gzip decoding when the
  response says so.
\<close>

definition apiRequest ::
  "('m, 'r) remote_env \<Rightarrow> string \<Rightarrow> 'm option \<Rightarrow> http_request list
    \<Rightarrow> (lf_error + bytes) \<times> http_request list" where
  "apiRequest env url m sent =
    (case (case m of None \<Rightarrow> Inr (''GET'', None)
            | Some v \<Rightarrow> (case json_Marshal env v of
                  Inl e \<Rightarrow> Inl e | Inr j \<Rightarrow> Inr (''POST'', Some j))) of
      Inl e \<Rightarrow> (Inl (ErrGo e), sent)
    | Inr (method, requestBody) \<Rightarrow>
    (case http_NewRequest env method url requestBody of
      Inl e \<Rightarrow> (Inl (ErrGo e), sent)
    | Inr req \<Rightarrow>
    (case httpClient_Do env req of
      Inl e \<Rightarrow> (Inl (ErrGo e), sent @ [req])
    | Inr resp \<Rightarrow>
    (case (case Body resp of Inl e \<Rightarrow> Inl e
            | Inr raw \<Rightarrow>
                if \<not> Uncompressed resp \<and> Contains (ContentEncoding resp) ''gzip''
                then gzip_read env raw else Inr raw) of
      Inl e \<Rightarrow> (Inl (ErrGo e), sent @ [req])
    | Inr plain \<Rightarrow>
    (let body = take APIMaxResponseSize plain in
     if StatusCode resp \<noteq> 200 then
       (case json_Unmarshal_ErrAPI env body of
          Inl e \<Rightarrow> (Inl (ErrGo e), sent @ [req])
        | Inr (c, msg) \<Rightarrow> (Inl (ErrAPI c msg), sent @ [req]))
     else (Inr body, sent @ [req]))))))"

text \<open>\<^verbatim>\<open>RemoteNode.GetRecord\<close>; a \<^verbatim>\<open>RemoteNode\<close> is its URL.\<close>

definition GetRecord ::
  "('m, 'r) remote_env \<Rightarrow> string \<Rightarrow> bytes \<Rightarrow> http_request list
    \<Rightarrow> (lf_error + 'r) \<times> http_request list" where
  "GetRecord env rn hash sent =
    (if length hash = 32 then (Inl ErrInvalidParameter, sent)
     else (case apiRequest env (rn @ ''/record/raw/='' @ Base62Encode env hash) None sent of
        (Inl err, sent') \<Rightarrow> (Inl err, sent')
      | (Inr body, sent') \<Rightarrow> (NewRecordFromBytes env body, sent')))"

text \<open>A node that answers every request with status 200 and a body of one byte.\<close>

definition demo_env :: "(unit, bytes) remote_env" where
  "demo_env = \<lparr>
     json_Marshal = (\<lambda>_. Inr []),
     http_NewRequest = (\<lambda>m u b. Inr \<lparr>req_method = m, req_url = u, req_body = b\<rparr>),
     httpClient_Do = (\<lambda>_. Inr \<lparr>StatusCode = 200, Uncompressed = True,
                                ContentEncoding = [], Body = Inr [7]\<rparr>),
     gzip_read = (\<lambda>b. Inr b),
     json_Unmarshal_ErrAPI = (\<lambda>_. Inl ''no json''),
     Base62Encode = (\<lambda>b. map (\<lambda>_. CHR ''0'') b),
     NewRecordFromBytes = (\<lambda>b. Inr b) \<rparr>"

section \<open>Genesis parameters (second part of remotenode.go)\<close>

text \<open>
  \<^verbatim>\<open>type GenesisParameters struct\<close>. Go's \<^verbatim>\<open>uint\<close> is taken at 64 bits. \<open>'c\<close> is
  the type of a parsed certificate.
\<close>

record 'c GenesisParameters =
  Name :: string
  Contact :: string
  Comment :: string
  AuthCertificates :: bytes
  AuthRequired :: bool
  LinkKey :: bytes
  RecordMinLinks :: "64 word"
  RecordMaxValueSize :: "64 word"
  RecordMaxForwardTimeDrift :: "64 word"
  AmendableFields :: "string list"
  certs :: "'c list"
  initialized :: bool

text \<open>
  What \<^verbatim>\<open>Update\<close> calls and this file does not define. The two \<^verbatim>\<open>json.Unmarshal\<close>
  calls: the first yields the keys of the JSON object (the keys of the Go map, in the
  order the \<^verbatim>\<open>range\<close> loop visits them), the second the decoded parameters.
  \<^verbatim>\<open>strings.ToLower\<close> and \<^verbatim>\<open>strings.EqualFold\<close>: they work by the case tables of
  Go's package unicode, on the code points of UTF-8 text, and they are two different
  relations (\<^verbatim>\<open>ToLower\<close> maps U+0130 to \<open>i\<close>, while under \<^verbatim>\<open>EqualFold\<close> U+0130 is
  equal only to itself). A Go string is its bytes.
\<close>

record 'c update_env =
  json_Unmarshal_keys :: "bytes \<Rightarrow> string + string list"
  json_Unmarshal_GenesisParameters :: "bytes \<Rightarrow> string + 'c GenesisParameters"
  ToLower :: "string \<Rightarrow> string"
  EqualFold :: "string \<Rightarrow> string \<Rightarrow> bool"

text \<open>
  The \<^verbatim>\<open>switch strings.ToLower(k)\<close> of \<^verbatim>\<open>Update\<close>: the assignment made for the
  key \<open>k\<close>, from the freshly decoded parameters \<open>ngp\<close>.
\<close>

definition amend_field ::
  "'c update_env \<Rightarrow> string \<Rightarrow> 'c GenesisParameters \<Rightarrow> 'c GenesisParameters
    \<Rightarrow> 'c GenesisParameters" where
  "amend_field env k ngp gp =
    (let lk = ToLower env k in
     if lk = ''name'' then gp\<lparr>Name := Name ngp\<rparr>
     else if lk = ''contact'' then gp\<lparr>Contact := Contact ngp\<rparr>
     else if lk = ''comment'' then gp\<lparr>Comment := Comment ngp\<rparr>
     else if lk = ''authcertificates'' then
       gp\<lparr>AuthCertificates := AuthCertificates ngp, certs := []\<rparr>
     else if lk = ''authrequired'' then gp\<lparr>AuthRequired := AuthRequired ngp\<rparr>
     else if lk = ''linkkey'' then gp\<lparr>LinkKey := LinkKey ngp\<rparr>
     else if lk = ''recordminlinks'' then gp\<lparr>RecordMinLinks := RecordMinLinks ngp\<rparr>
     else if lk = ''recordmaxvaluesize'' then
       gp\<lparr>RecordMaxValueSize := RecordMaxValueSize ngp\<rparr>
     else if lk = ''recordmaxforwardtimedrift'' then
       gp\<lparr>RecordMaxForwardTimeDrift := RecordMaxForwardTimeDrift ngp\<rparr>
     else if lk = ''amendablefields'' then gp\<lparr>AmendableFields := AmendableFields ngp\<rparr>
     else gp)"

text \<open>
  One round of the loop \<^verbatim>\<open>for k := range updFields\<close>. \<open>afields\<close> is the slice
  read from \<^verbatim>\<open>gp.AmendableFields\<close> before the loop; \<^verbatim>\<open>gp.initialized\<close> is read
  in every round.
\<close>

definition update_key ::
  "'c update_env \<Rightarrow> string list \<Rightarrow> 'c GenesisParameters \<Rightarrow> 'c GenesisParameters \<Rightarrow> string
    \<Rightarrow> 'c GenesisParameters" where
  "update_key env afields ngp gp k =
    (let skip = (initialized gp \<and> \<not> list_ex (\<lambda>af. EqualFold env af k) afields)
     in if \<not> skip then amend_field env k ngp gp else gp)"

text \<open>
  \<^verbatim>\<open>GenesisParameters.Update\<close>: the returned error (\<open>None\<close> for \<^verbatim>\<open>nil\<close>) and the
  receiver after the call.
\<close>

definition Update ::
  "'c update_env \<Rightarrow> 'c GenesisParameters \<Rightarrow> bytes
    \<Rightarrow> lf_error option \<times> 'c GenesisParameters" where
  "Update env gp jsonValue =
    (if length jsonValue = 0 then (None, gp)
     else (case json_Unmarshal_keys env jsonValue of
        Inl err \<Rightarrow> (Some (ErrGo err), gp)
      | Inr updFields \<Rightarrow>
     (case json_Unmarshal_GenesisParameters env jsonValue of
        Inl err \<Rightarrow> (Some (ErrGo err), gp)
      | Inr ngp \<Rightarrow>
     (let afields = AmendableFields gp;
          gp1 = foldl (update_key env afields ngp) gp updFields
      in (None, gp1\<lparr>initialized := True\<rparr>)))))"










section \<open>Genesis records (second part of remotenode.go)\<close>

datatype record_type = RecordTypeGenesis | RecordTypeOther nat

text \<open>
  What \<^verbatim>\<open>CreateGenesisRecords\<close> calls and this file does not define. \<open>'r\<close> is the
  type \<^verbatim>\<open>Record\<close>, \<open>'o\<close> the type \<^verbatim>\<open>Owner\<close>, \<open>'w\<close> the proof-of-work engine.
  \<^verbatim>\<open>NewRecord\<close> is called with \<^verbatim>\<open>nil\<close> for its masking key, selector names,
  selector ordinals and certificate arguments in both places, so these four arguments are
  left out: it takes the record type, the value, the links, the timestamp, the work
  function and the owner.
\<close>

record ('c, 'r, 'o, 'w) genesis_env =
  json_Marshal_gp :: "'c GenesisParameters \<Rightarrow> string + bytes"
  NewOwner :: "8 word \<Rightarrow> lf_error + 'o"
  NewWharrgarblr :: 'w
  NewRecord :: "record_type \<Rightarrow> bytes \<Rightarrow> bytes list \<Rightarrow> 64 word \<Rightarrow> 'w \<Rightarrow> 'o \<Rightarrow> lf_error + 'r"
  Hash :: "'r \<Rightarrow> bytes"

text \<open>
  The loop \<^verbatim>\<open>for i := uint(1); i < genesisParameters.RecordMinLinks; i++\<close>, with the
  bound \<open>m\<close> read as a number; \<open>records\<close> and \<open>links\<close> are the two slices it
  appends to. The timestamp \<^verbatim>\<open>now+uint64(i)\<close> is a 64-bit sum.
\<close>

function genesis_loop ::
  "('c, 'r, 'o, 'w) genesis_env \<Rightarrow> nat \<Rightarrow> 64 word \<Rightarrow> 'o \<Rightarrow> nat \<Rightarrow> 'r list \<Rightarrow> bytes list
    \<Rightarrow> lf_error + 'r list" where
  "genesis_loop env m now genesisOwner i records links =
    (if i < m then
       (case NewRecord env RecordTypeGenesis [] links (now + of_nat i)
               (NewWharrgarblr env) genesisOwner of
          Inl err \<Rightarrow> Inl err
        | Inr r \<Rightarrow> genesis_loop env m now genesisOwner (Suc i)
                     (records @ [r]) (links @ [Hash env r]))
     else Inr records)"
  by pat_completeness auto
termination
  by (relation "measure (\<lambda>(env, m, now, genesisOwner, i, records, links). m - i)") auto

declare genesis_loop.simps [simp del]

text \<open>\<^verbatim>\<open>CreateGenesisRecords\<close>; \<open>now\<close> is what \<^verbatim>\<open>TimeSec()\<close> returns.\<close>

definition CreateGenesisRecords ::
  "('c, 'r, 'o, 'w) genesis_env \<Rightarrow> 8 word \<Rightarrow> 'c GenesisParameters \<Rightarrow> 64 word
    \<Rightarrow> lf_error + ('r list \<times> 'o)" where
  "CreateGenesisRecords env genesisOwnerType genesisParameters now =
    (case json_Marshal_gp env genesisParameters of
       Inl err \<Rightarrow> Inl (ErrGo err)
     | Inr gpjson \<Rightarrow>
    (case NewOwner env genesisOwnerType of
       Inl err \<Rightarrow> Inl err
     | Inr genesisOwner \<Rightarrow>
    (case NewRecord env RecordTypeGenesis gpjson [] now (NewWharrgarblr env) genesisOwner of
       Inl err \<Rightarrow> Inl err
     | Inr r \<Rightarrow>
    (case genesis_loop env (unat (RecordMinLinks genesisParameters)) now genesisOwner 1
             [r] [Hash env r] of
       Inl err \<Rightarrow> Inl err
     | Inr records \<Rightarrow> Inr (records, genesisOwner)))))"

text \<open>
  A toy environment: a record is the triple of its value, links and timestamp, and its
  hash is the one byte of its timestamp.
\<close>

definition toy_genesis_env ::
  "(unit, bytes \<times> bytes list \<times> 64 word, unit, unit) genesis_env" where
  "toy_genesis_env = \<lparr>
     json_Marshal_gp = (\<lambda>gp. Inr [123, 125]),
     NewOwner = (\<lambda>t. Inr ()),
     NewWharrgarblr = (),
     NewRecord = (\<lambda>t v ls ts w ow. Inr (v, ls, ts)),
     Hash = (\<lambda>(v, ls, ts). [ucast ts]) \<rparr>"

definition toy_params :: "unit GenesisParameters" where
  "toy_params = \<lparr> Name = ''net'', Contact = [], Comment = [], AuthCertificates = [],
     AuthRequired = False, LinkKey = replicate 32 0, RecordMinLinks = 3,
     RecordMaxValueSize = 1024, RecordMaxForwardTimeDrift = 60,
     AmendableFields = [''Comment''], certs = [], initialized = True \<rparr>"






section \<open>The rounded integer square root of misc.go\<close>

text \<open>
  \<^verbatim>\<open>res = uint32(math.Round(math.Sqrt(float64(op))))\<close>.

  A \<^verbatim>\<open>uint32\<close> converts to \<^verbatim>\<open>float64\<close> exactly. \<^verbatim>\<open>math.Sqrt\<close> is the IEEE 754
  square root: the exact root rounded to the nearest number with a significand of 53
  bits. A non-negative finite \<^verbatim>\<open>float64\<close> is written here as a pair \<open>(m, s)\<close> of
  naturals, standing for \<open>m / 2 ^ s\<close>, so that the whole computation is exact integer
  arithmetic.
\<close>

text \<open>The floor of the square root, two bits of the argument at a time.\<close>

fun isqrt :: "nat \<Rightarrow> nat" where
  "isqrt n =
    (if n = 0 then 0
     else (let r = 2 * isqrt (n div 4) in if (r + 1) * (r + 1) \<le> n then r + 1 else r))"

declare isqrt.simps [simp del]

text \<open>
  The integer nearest to the square root of \<open>n\<close>: the floor \<open>f\<close> of the root when
  \<open>n \<le> f\<^sup>2 + f\<close>, that is when \<open>n < (f + 1/2)\<^sup>2\<close>, and \<open>f + 1\<close> otherwise. An
  integer is never equal to \<open>(f + 1/2)\<^sup>2\<close>.
\<close>

definition nearest_root :: "nat \<Rightarrow> nat" where
  "nearest_root n = (let f = isqrt n in if n - f * f \<le> f then f else f + 1)"

text \<open>The number of binary digits of a natural.\<close>

fun bitlen :: "nat \<Rightarrow> nat" where
  "bitlen n = (if n = 0 then 0 else Suc (bitlen (n div 2)))"

declare bitlen.simps [simp del]

text \<open>
  \<^verbatim>\<open>math.Sqrt\<close> on a positive integer-valued \<^verbatim>\<open>float64\<close> \<open>x\<close>. The root lies in
  \<open>[2 ^ j, 2 ^ (j + 1))\<close> for \<open>j = (bitlen x - 1) div 2\<close>, where the representable
  numbers are the multiples of \<open>2 ^ j / 2 ^ 52\<close>; so the result is \<open>m / 2 ^ s\<close> with
  \<open>s = 52 - j\<close> and \<open>m\<close> the integer nearest to \<open>sqrt x * 2 ^ s = sqrt (x * 4 ^ s)\<close>.
  That root is never half-way between two integers, so the tie rule (to even) never
  applies.
\<close>

definition float64_Sqrt :: "nat \<Rightarrow> nat \<times> nat" where
  "float64_Sqrt x =
    (if x = 0 then (0, 0)
     else (let j = (bitlen x - 1) div 2;
               s = 52 - j;
               m = nearest_root (x * 4 ^ s)
           in (m, s)))"

text \<open>
  \<^verbatim>\<open>math.Round\<close>, "the nearest integer, rounding half away from zero", on the
  non-negative value \<open>m / 2 ^ s\<close>: the floor of \<open>m / 2 ^ s + 1 / 2\<close>.
\<close>

definition float64_Round :: "nat \<times> nat \<Rightarrow> nat" where
  "float64_Round y = (case y of (m, s) \<Rightarrow> (2 * m + 2 ^ s) div 2 ^ (s + 1))"

text \<open>\<^verbatim>\<open>integerSqrtRounded\<close>; the conversion to \<^verbatim>\<open>uint32\<close> is of an integer value.\<close>

definition integerSqrtRounded :: "32 word \<Rightarrow> 32 word" where
  "integerSqrtRounded op = of_nat (float64_Round (float64_Sqrt (unat op)))"

section \<open>The record store and its weight propagation\<close>

text \<open>
  Modelled from the spec: the implementation of the store (\<^verbatim>\<open>ZTLF_DB_putRecord\<close> and
  the graph thread, in db.c) is not among the sources; only the handle and the prototypes
  are. What follows is the store of the specification, sections 3 and 4: records, graph
  nodes addressed by a dense graph offset (goff), the weight file with one slot per goff,
  the pending flags, the dangling links, admission by \<open>put\<close> and the weight propagation
  worker. Holes and input/output failures are left out: nothing proved below depends on
  them. A goff is the index of a row, a natural number.
\<close>

type_synonym hash = bytes

record lfrecord =
  r_hash :: hash
  r_owner :: bytes
  r_selectors :: "bytes list"
  r_links :: "hash list"
  r_value :: bytes
  r_timestamp :: "64 word"
  r_work :: "32 word"

type_synonym weight = "128 word"

record store =
  rows :: "lfrecord list"
  weights :: "weight list"
  pending :: "bool list"
  dangling :: "(nat \<times> hash) list"

definition empty_store :: store where
  "empty_store = \<lparr>rows = [], weights = [], pending = [], dangling = []\<rparr>"

datatype store_error = ValidationError
datatype put_result = Stored | AlreadyExists

text \<open>
  Modelled from the spec: \<open>getByHash\<close> (section 4.1), the goff of the record with this
  hash, if it has been admitted.
\<close>

primrec lookup_goff :: "hash \<Rightarrow> lfrecord list \<Rightarrow> nat option" where
  "lookup_goff h [] = None"
| "lookup_goff h (r # rs) =
     (if r_hash r = h then Some 0 else map_option Suc (lookup_goff h rs))"

definition getByHash :: "store \<Rightarrow> hash \<Rightarrow> nat option" where
  "getByHash st h = lookup_goff h (rows st)"

text \<open>
  Modelled from the spec: \<open>getMaxGoff\<close> (section 4.1), and \<open>readWeight\<close>
  (\<open>getScore\<close>) and the saturating \<open>addWeight\<close> of the weight file (section 4.2).
\<close>

definition getMaxGoff :: "store \<Rightarrow> nat option" where
  "getMaxGoff st = (if rows st = [] then None else Some (length (rows st) - 1))"

definition readWeight :: "store \<Rightarrow> nat \<Rightarrow> weight" where
  "readWeight st goff = (if goff < length (weights st) then weights st ! goff else 0)"

definition sat_add :: "weight \<Rightarrow> weight \<Rightarrow> weight" where
  "sat_add a b = (if unat a + unat b < 2 ^ 128 then a + b else - 1)"

definition addWeight :: "store \<Rightarrow> nat \<Rightarrow> weight \<Rightarrow> store" where
  "addWeight st goff delta =
     st\<lparr>weights := (weights st)[goff := sat_add (readWeight st goff) delta]\<rparr>"

text \<open>
  Modelled from the spec: \<open>put\<close> (sections 4.1, 6 and 7). A hash already stored is a
  success that changes nothing; a record that links to itself is rejected with a
  validation error and not stored; otherwise the record gets the next goff, a zero
  weight slot and the pending flag, a dangling link is recorded for each of its links
  whose target has not been seen, and the dangling links that were waiting for this
  record are deleted.
\<close>

definition put :: "store \<Rightarrow> lfrecord \<Rightarrow> (store_error + put_result) \<times> store" where
  "put st r =
    (case getByHash st (r_hash r) of
       Some g \<Rightarrow> (Inr AlreadyExists, st)
     | None \<Rightarrow>
        if r_hash r \<in> set (r_links r) then (Inl ValidationError, st)
        else
          (let goff = length (rows st);
               unseen = filter (\<lambda>h. getByHash st h = None) (remdups (r_links r));
               resolved = filter (\<lambda>(from, target). target \<noteq> r_hash r) (dangling st)
           in (Inr Stored,
               \<lparr>rows = rows st @ [r],
                weights = weights st @ [0],
                pending = pending st @ [True],
                dangling = resolved @ map (\<lambda>h. (goff, h)) unseen\<rparr>)))"

text \<open>Modelled from the spec: \<open>listWanted\<close> (section 4.3), the targets of the dangling links.\<close>

definition listWanted :: "store \<Rightarrow> hash list" where
  "listWanted st = remdups (map snd (dangling st))"

text \<open>
  Modelled from the spec: the weight propagation worker (section 4.4). A link is fully
  weight-applied when its target is stored and no longer
  pending. A pending record is ready when all its links are; applying it adds its
  contribution to the weight of each record it links to and clears its flag. The
  transform from the work value to the contribution is not fixed by the specification
  and is a parameter, \<open>contrib\<close>.
\<close>

definition fully_applied :: "store \<Rightarrow> hash \<Rightarrow> bool" where
  "fully_applied st h =
     (case getByHash st h of None \<Rightarrow> False
      | Some g \<Rightarrow> g < length (pending st) \<and> \<not> pending st ! g)"

definition ready :: "store \<Rightarrow> nat \<Rightarrow> bool" where
  "ready st g =
     (g < length (rows st) \<and> g < length (pending st) \<and> pending st ! g
      \<and> list_all (fully_applied st) (r_links (rows st ! g)))"

definition add_to_link :: "weight \<Rightarrow> hash \<Rightarrow> store \<Rightarrow> store" where
  "add_to_link delta h st =
     (case getByHash st h of None \<Rightarrow> st | Some t \<Rightarrow> addWeight st t delta)"

definition apply_weight :: "(32 word \<Rightarrow> weight) \<Rightarrow> store \<Rightarrow> nat \<Rightarrow> store" where
  "apply_weight contrib st g =
     (let r = rows st ! g;
          st' = fold (add_to_link (contrib (r_work r))) (remdups (r_links r)) st
      in st'\<lparr>pending := (pending st')[g := False]\<rparr>)"

text \<open>
  Modelled from the spec: \<open>getRecordsForWeightApplication\<close> (section 4.1), the pending
  goffs, lowest first, and \<open>pendingCount\<close> (section 4.3).
\<close>

definition getRecordsForWeightApplication :: "store \<Rightarrow> nat list" where
  "getRecordsForWeightApplication st =
     filter (\<lambda>g. pending st ! g) [0..<min (length (rows st)) (length (pending st))]"

definition pendingCount :: "store \<Rightarrow> nat" where
  "pendingCount st = length (getRecordsForWeightApplication st)"

text \<open>
  Modelled from the spec: the worker loop (section 4.4). As long as some pending record is ready, apply the first such. It
  stops when every pending record waits for a link.
\<close>

function propagate :: "(32 word \<Rightarrow> weight) \<Rightarrow> store \<Rightarrow> store" where
  "propagate contrib st =
     (case find (ready st) (getRecordsForWeightApplication st) of
        None \<Rightarrow> st
      | Some g \<Rightarrow> propagate contrib (apply_weight contrib st g))"
  by pat_completeness auto

text \<open>The measure of the loop: each round clears one pending flag.\<close>

lemma rows_add_to_link [simp]: "rows (add_to_link d h st) = rows st"
  by (simp add: add_to_link_def addWeight_def split: option.splits)

lemma pending_add_to_link [simp]: "pending (add_to_link d h st) = pending st"
  by (simp add: add_to_link_def addWeight_def split: option.splits)

lemma rows_fold_add [simp]: "rows (fold (add_to_link d) hs st) = rows st"
  by (induction hs arbitrary: st) simp_all

lemma pending_fold_add [simp]: "pending (fold (add_to_link d) hs st) = pending st"
  by (induction hs arbitrary: st) simp_all

lemma rows_apply_weight [simp]: "rows (apply_weight c st g) = rows st"
  by (simp add: apply_weight_def Let_def)

lemma pending_apply_weight [simp]:
  "pending (apply_weight c st g) = (pending st)[g := False]"
  by (simp add: apply_weight_def Let_def)

lemma pendingCount_card:
  "pendingCount st =
     card {g. g < length (rows st) \<and> g < length (pending st) \<and> pending st ! g}"
proof -
  have "pendingCount st = card (set (getRecordsForWeightApplication st))"
    unfolding pendingCount_def getRecordsForWeightApplication_def
    by (rule distinct_card [symmetric]) simp
  also have "set (getRecordsForWeightApplication st) =
      {g. g < length (rows st) \<and> g < length (pending st) \<and> pending st ! g}"
    by (auto simp: getRecordsForWeightApplication_def)
  finally show ?thesis .
qed

lemma pendingCount_apply_weight:
  assumes "ready st g"
  shows "pendingCount (apply_weight contrib st g) < pendingCount st"
proof -
  let ?B = "{i. i < length (rows st) \<and> i < length (pending st) \<and> pending st ! i}"
  let ?A = "{i. i < length (rows st) \<and> i < length (pending st)
               \<and> (pending st)[g := False] ! i}"
  from assms have g: "g \<in> ?B"
    by (simp add: ready_def)
  have "(pending st)[g := False] ! i \<Longrightarrow> i < length (pending st) \<Longrightarrow>
        pending st ! i \<and> i \<noteq> g" for i
    by (cases "i = g") simp_all
  then have "?A \<subseteq> ?B - {g}"
    by blast
  with g have "?A \<subset> ?B"
    by blast
  moreover have "finite ?B"
    by simp
  ultimately have "card ?A < card ?B"
    by (rule psubset_card_mono [rotated])
  then show ?thesis
    by (simp add: pendingCount_card)
qed

termination propagate
proof (relation "measure (\<lambda>(c, st). pendingCount st)")
  show "wf (measure (\<lambda>(c, st). pendingCount st))" by simp
next
  fix contrib st g
  assume "find (ready st) (getRecordsForWeightApplication st) = Some g"
  then have "ready st g"
    by (auto simp: find_Some_iff)
  then show "((contrib, apply_weight contrib st g), (contrib, st))
       \<in> measure (\<lambda>(c, st). pendingCount st)"
    by (simp add: pendingCount_apply_weight)
qed

declare propagate.simps [simp del]

text \<open>
  A delivery: each record is admitted by \<open>put\<close> (whatever it answers) and the worker
  then runs until nothing is ready. \<open>deliver\<close> starts from the empty store.
\<close>

definition ingest :: "(32 word \<Rightarrow> weight) \<Rightarrow> store \<Rightarrow> lfrecord \<Rightarrow> store" where
  "ingest contrib st r = propagate contrib (snd (put st r))"

definition deliver :: "(32 word \<Rightarrow> weight) \<Rightarrow> lfrecord list \<Rightarrow> store" where
  "deliver contrib rs = foldl (ingest contrib) empty_store rs"

text \<open>The cumulative weight of the record with a given hash.\<close>

definition weight_of :: "store \<Rightarrow> hash \<Rightarrow> weight option" where
  "weight_of st h = map_option (readWeight st) (getByHash st h)"

text \<open>
  Modelled from the spec: the authoritative revision (section 4.4, tie-break policy). Two
  revisions are compared by cumulative weight, the
  greater first, and at equal weight by hash, the lexicographically smaller first (bytes
  compared as unsigned numbers, a proper prefix before its extensions). The revisions of
  a selector are the fully weight-applied records that carry it.
\<close>

fun hash_less :: "hash \<Rightarrow> hash \<Rightarrow> bool" where
  "hash_less [] [] = False"
| "hash_less [] (y # ys) = True"
| "hash_less (x # xs) [] = False"
| "hash_less (x # xs) (y # ys) = (x < y \<or> (x = y \<and> hash_less xs ys))"

definition beats :: "weight \<times> hash \<Rightarrow> weight \<times> hash \<Rightarrow> bool" where
  "beats a b = (fst b < fst a \<or> (fst a = fst b \<and> hash_less (snd a) (snd b)))"

definition is_revision :: "store \<Rightarrow> bytes \<Rightarrow> nat \<Rightarrow> bool" where
  "is_revision st sel g =
     (g < length (rows st) \<and> g < length (pending st) \<and> \<not> pending st ! g
      \<and> sel \<in> set (r_selectors (rows st ! g)))"

definition revisions :: "store \<Rightarrow> bytes \<Rightarrow> (weight \<times> hash) list" where
  "revisions st sel =
     map (\<lambda>g. (readWeight st g, r_hash (rows st ! g)))
       (filter (is_revision st sel) [0..<length (rows st)])"

fun pick_best :: "(weight \<times> hash) list \<Rightarrow> (weight \<times> hash) option" where
  "pick_best [] = None"
| "pick_best (c # cs) =
     (case pick_best cs of None \<Rightarrow> Some c
      | Some b \<Rightarrow> if beats c b then Some c else Some b)"

definition authoritative :: "store \<Rightarrow> bytes \<Rightarrow> hash option" where
  "authoritative st sel = map_option snd (pick_best (revisions st sel))"

text \<open>
  The stores that can arise: from the empty store by admissions and by worker steps on
  ready records, in any interleaving.
\<close>

inductive reachable :: "(32 word \<Rightarrow> weight) \<Rightarrow> store \<Rightarrow> bool"
  for contrib :: "32 word \<Rightarrow> weight" where
  reachable_empty: "reachable contrib empty_store"
| reachable_put: "reachable contrib st \<Longrightarrow> reachable contrib (snd (put st r))"
| reachable_apply: "reachable contrib st \<Longrightarrow> ready st g
    \<Longrightarrow> reachable contrib (apply_weight contrib st g)"

text \<open>
  The records of a set whose weight application can complete: those all of whose links
  lead, directly and then transitively, to records of the set.
\<close>

inductive_set applicable :: "lfrecord set \<Rightarrow> lfrecord set" for S :: "lfrecord set" where
  "r \<in> S \<Longrightarrow> (\<And>h. h \<in> set (r_links r) \<Longrightarrow> \<exists>r'. r' \<in> applicable S \<and> r_hash r' = h)
     \<Longrightarrow> r \<in> applicable S"

text \<open>The rows of the store, and those whose weight has been applied.\<close>

definition admitted :: "store \<Rightarrow> lfrecord set" where
  "admitted st = set (rows st)"

definition applied :: "store \<Rightarrow> lfrecord set" where
  "applied st =
     {rows st ! g | g. g < length (rows st) \<and> g < length (pending st)
        \<and> \<not> pending st ! g}"

text \<open>
  The sum, capped at the largest weight, of the contributions of a set of records: what
  saturating additions amount to.
\<close>

definition capped_sum :: "(32 word \<Rightarrow> weight) \<Rightarrow> lfrecord set \<Rightarrow> nat" where
  "capped_sum contrib R = min (2 ^ 128 - 1) (\<Sum>r\<in>R. unat (contrib (r_work r)))"

text \<open>
  The consistency of a store. The weight file and the flags have one entry per row and
  no hash is stored twice (\<open>well_formed\<close>). Moreover (\<open>store_ok\<close>) every applied
  record can complete and links only to applied records, and the weight of each row is
  the capped sum of the contributions of the applied records that link to it.
\<close>

definition well_formed :: "store \<Rightarrow> bool" where
  "well_formed st \<longleftrightarrow>
     length (weights st) = length (rows st) \<and> length (pending st) = length (rows st)
     \<and> distinct (map r_hash (rows st))"

definition linkers :: "store \<Rightarrow> hash \<Rightarrow> lfrecord set" where
  "linkers st h = {r \<in> applied st. h \<in> set (r_links r)}"

definition store_ok :: "(32 word \<Rightarrow> weight) \<Rightarrow> store \<Rightarrow> bool" where
  "store_ok contrib st \<longleftrightarrow>
     well_formed st
     \<and> applied st \<subseteq> applicable (admitted st)
     \<and> (\<forall>r h. r \<in> applied st \<and> h \<in> set (r_links r) \<longrightarrow> (\<exists>r'. r' \<in> applied st \<and> r_hash r' = h))
     \<and> (\<forall>g. g < length (rows st) \<longrightarrow>
           unat (weights st ! g) = capped_sum contrib (linkers st (r_hash (rows st ! g))))"

text \<open>The worker has nothing to do: no pending record is ready.\<close>

definition quiescent :: "store \<Rightarrow> bool" where
  "quiescent st \<longleftrightarrow> find (ready st) (getRecordsForWeightApplication st) = None"

text \<open>
  Three records for examples: \<open>G\<close> without links, \<open>A\<close> and \<open>B\<close> linking to it;
  \<open>A\<close> and \<open>B\<close> share a selector, and so do \<open>G\<close> and \<open>A\<close>.
\<close>

definition rec_G :: lfrecord where
  "rec_G = \<lparr>r_hash = [5], r_owner = [], r_selectors = [[7]], r_links = [],
     r_value = [], r_timestamp = 100, r_work = 5\<rparr>"

definition rec_A :: lfrecord where
  "rec_A = \<lparr>r_hash = [2], r_owner = [], r_selectors = [[9], [7]], r_links = [[5]],
     r_value = [], r_timestamp = 101, r_work = 3\<rparr>"

definition rec_B :: lfrecord where
  "rec_B = \<lparr>r_hash = [3], r_owner = [], r_selectors = [[9]], r_links = [[5]],
     r_value = [], r_timestamp = 102, r_work = 4\<rparr>"

section \<open>The weight reported by the API (part_000)\<close>






section \<open>Properties of the store handle\<close>

lemma is_prime_iff: "is_prime n \<longleftrightarrow> 1 < n \<and> (\<forall>d. d dvd n \<longrightarrow> d = 1 \<or> d = n)"
proof
  assume p: "is_prime n"
  then have n: "1 < n" and nd: "\<And>d. 2 \<le> d \<Longrightarrow> d < n \<Longrightarrow> n mod d \<noteq> 0"
    by (auto simp: is_prime_def list_all_iff)
  have "d = 1 \<or> d = n" if "d dvd n" for d
  proof -
    from that n have "d \<noteq> 0" and "d \<le> n"
      by (auto intro: dvd_imp_le gr0I)
    with nd [of d] that show ?thesis
      by (cases "d = 1"; cases "d = n") (auto simp: mod_eq_0_iff_dvd)
  qed
  with n show "1 < n \<and> (\<forall>d. d dvd n \<longrightarrow> d = 1 \<or> d = n)" by blast
next
  assume "1 < n \<and> (\<forall>d. d dvd n \<longrightarrow> d = 1 \<or> d = n)"
  then show "is_prime n"
    by (auto simp: is_prime_def list_all_iff mod_eq_0_iff_dvd)
qed


text \<open>
  C7. The store handle declares exactly 22 prepared statements, all different, and they
  cover record insertion and lookup, max-goff, history-by-id, score-by-goff, dangling
  links, wanted hashes, holes, pending-weight bookkeeping and peer bookkeeping, and
  nothing else.
\<close>

theorem ZTLF_DB_has_22_statements:
  "length ZTLF_DB_stmts = 22 \<and> distinct ZTLF_DB_stmts \<and> set ZTLF_DB_stmts = UNIV
   \<and> shape_of ` set ZTLF_DB_stmts =
       {RecordInsertion, RecordLookup, MaxGoff, HistoryById, ScoreByGoff,
        DanglingLinks, WantedHashes, Holes, PendingWeight, PeerBookkeeping}"
proof -
  have len: "length ZTLF_DB_stmts = 22"
    by (simp add: ZTLF_DB_stmts_def)
  have dis: "distinct ZTLF_DB_stmts"
    by (simp add: ZTLF_DB_stmts_def)
  have "s \<in> set ZTLF_DB_stmts" for s
    by (cases s) (simp_all add: ZTLF_DB_stmts_def)
  then have univ: "set ZTLF_DB_stmts = UNIV"
    by blast
  have shapes: "shape_of ` set ZTLF_DB_stmts =
       {RecordInsertion, RecordLookup, MaxGoff, HistoryById, ScoreByGoff,
        DanglingLinks, WantedHashes, Holes, PendingWeight, PeerBookkeeping}"
    by (simp add: ZTLF_DB_stmts_def) blast
  from len dis univ shapes show ?thesis by blast
qed


section \<open>Properties of the HTTP client\<close>

lemma apiRequest_sent:
  "apiRequest env url None sent = (r, sent') \<Longrightarrow>
   (sent' = sent \<and> (\<exists>e. r = Inl (ErrGo e) \<and> http_NewRequest env ''GET'' url None = Inl e))
   \<or> (\<exists>req. http_NewRequest env ''GET'' url None = Inr req \<and> sent' = sent @ [req])"
  by (auto simp: apiRequest_def Let_def split: sum.splits if_splits prod.splits)

text \<open>
  C8. \<open>GetRecord\<close> returns \<open>ErrInvalidParameter\<close> with nothing sent exactly when
  the hash has 32 bytes. For every other length it goes on to the remote lookup: the
  result is that of the GET request for \<open>/record/raw/=\<close> followed by the encoded hash,
  and once the request has been built it is sent.
\<close>

theorem GetRecord_rejects_32_bytes:
  "(GetRecord env rn hash sent = (Inl ErrInvalidParameter, sent) \<longleftrightarrow> length hash = 32)
   \<and> (length hash \<noteq> 32 \<longrightarrow>
        GetRecord env rn hash sent =
          (case apiRequest env (rn @ ''/record/raw/='' @ Base62Encode env hash) None sent of
             (Inl err, sent') \<Rightarrow> (Inl err, sent')
           | (Inr body, sent') \<Rightarrow> (NewRecordFromBytes env body, sent')))
   \<and> (length hash \<noteq> 32 \<longrightarrow>
        (\<forall>req. http_NewRequest env ''GET'' (rn @ ''/record/raw/='' @ Base62Encode env hash) None
                 = Inr req \<longrightarrow> snd (GetRecord env rn hash sent) = sent @ [req]))"
proof (cases "length hash = 32")
  case True
  then show ?thesis by (simp add: GetRecord_def)
next
  case False
  obtain r sent' where a:
    "apiRequest env (rn @ ''/record/raw/='' @ Base62Encode env hash) None sent = (r, sent')"
    by (cases "apiRequest env (rn @ ''/record/raw/='' @ Base62Encode env hash) None sent")
  from apiRequest_sent [OF a] False a show ?thesis
    by (auto simp: GetRecord_def split: sum.splits)
qed

theorem GetRecord_rejects_32_bytes_witness:
  "GetRecord demo_env ''http://a'' (replicate 32 0) [] = (Inl ErrInvalidParameter, [])
   \<and> GetRecord demo_env ''http://a'' [1, 2] []
       = (Inr [7], [\<lparr>req_method = ''GET'', req_url = ''http://a/record/raw/=00'',
                    req_body = None\<rparr>])"
  using GetRecord_rejects_32_bytes [of demo_env "''http://a''" "replicate 32 0" "[]"]
    GetRecord_rejects_32_bytes [of demo_env "''http://a''" "[1, 2]" "[]"]
  by (simp add: demo_env_def apiRequest_def APIMaxResponseSize_def)

section \<open>Properties of the genesis parameters\<close>



lemma amend_field_initialized: "initialized (amend_field env k ngp gp) = initialized gp"
  by (simp add: amend_field_def Let_def)


lemma update_key_initialized:
  "initialized (update_key env afields ngp gp k) = initialized gp"
  by (simp add: update_key_def amend_field_initialized)


lemma foldl_update_key_initialized:
  "initialized (foldl (update_key env afields ngp) gp ks) = initialized gp"
  by (induction ks arbitrary: gp) (simp_all add: update_key_initialized)




text \<open>A successful \<open>Update\<close> with non-empty input leaves the parameters initialized.\<close>

lemma Update_initializes:
  "jsonValue \<noteq> [] \<Longrightarrow> Update env gp jsonValue = (None, gp') \<Longrightarrow> initialized gp'"
  by (auto simp: Update_def Let_def split: sum.splits)




section \<open>Properties of the genesis records\<close>

lemma genesis_loop_result:
  "genesis_loop env m now ow i recs links = Inr out \<Longrightarrow>
   length recs = i \<Longrightarrow> links = map (Hash env) recs \<Longrightarrow>
   length out = max i m \<and> take i out = recs
   \<and> (\<forall>j. i \<le> j \<and> j < m \<longrightarrow>
        NewRecord env RecordTypeGenesis [] (map (Hash env) (take j out)) (now + of_nat j)
          (NewWharrgarblr env) ow = Inr (out ! j))"
proof (induction env m now ow i recs links rule: genesis_loop.induct)
  case (1 env m now ow i recs links)
  show ?case
  proof (cases "i < m")
    case False
    then have "genesis_loop env m now ow i recs links = Inr recs"
      by (subst genesis_loop.simps) simp
    with "1.prems"(1) have "out = recs"
      by simp
    with False "1.prems"(2) show ?thesis
      by auto
  next
    case True
    then have unfold: "genesis_loop env m now ow i recs links =
        (case NewRecord env RecordTypeGenesis [] links (now + of_nat i)
                (NewWharrgarblr env) ow of
           Inl err \<Rightarrow> Inl err
         | Inr r \<Rightarrow> genesis_loop env m now ow (Suc i) (recs @ [r]) (links @ [Hash env r]))"
      by (subst genesis_loop.simps) simp
    with "1.prems"(1) obtain r where
      r: "NewRecord env RecordTypeGenesis [] links (now + of_nat i) (NewWharrgarblr env) ow
            = Inr r"
      and rest: "genesis_loop env m now ow (Suc i) (recs @ [r]) (links @ [Hash env r])
            = Inr out"
      by (auto split: sum.splits)
    from "1.IH" [OF True r rest] "1.prems"(2,3)
    have len: "length out = max (Suc i) m"
      and tk: "take (Suc i) out = recs @ [r]"
      and later: "\<And>j. Suc i \<le> j \<Longrightarrow> j < m \<Longrightarrow>
        NewRecord env RecordTypeGenesis [] (map (Hash env) (take j out)) (now + of_nat j)
          (NewWharrgarblr env) ow = Inr (out ! j)"
      by auto
    have "take i out = take i (take (Suc i) out)"
      by simp
    with tk "1.prems"(2) have tki: "take i out = recs"
      by simp
    have "out ! i = take (Suc i) out ! i"
      by simp
    with tk "1.prems"(2) have outi: "out ! i = r"
      by (auto simp: nth_append)
    have "NewRecord env RecordTypeGenesis [] (map (Hash env) (take j out)) (now + of_nat j)
          (NewWharrgarblr env) ow = Inr (out ! j)" if "i \<le> j" "j < m" for j
    proof (cases "j = i")
      case True
      with r tki outi "1.prems"(3) show ?thesis by simp
    next
      case False
      with that later [of j] show ?thesis by simp
    qed
    with len tki True show ?thesis by (simp add: max_def)
  qed
qed

text \<open>
  C9. A successful \<open>CreateGenesisRecords\<close> returns exactly \<open>max 1 m\<close> records for
  \<open>m = RecordMinLinks\<close>, hence at least \<open>m\<close>. The first is the record built from the
  JSON encoding of the parameters, with no links, at time \<open>now\<close>. Record \<open>i\<close>, for
  \<open>1 \<le> i < m\<close>, is the record built with an empty value, with the hashes of the
  \<open>i\<close> records before it as links, at time \<open>now + i\<close> (a 64-bit sum).
\<close>

theorem CreateGenesisRecords_result:
  assumes "CreateGenesisRecords env t gp now = Inr (records, ow)"
  shows "length records = max 1 (unat (RecordMinLinks gp))
    \<and> unat (RecordMinLinks gp) \<le> length records
    \<and> NewOwner env t = Inr ow
    \<and> (\<exists>gpjson. json_Marshal_gp env gp = Inr gpjson
          \<and> NewRecord env RecordTypeGenesis gpjson [] now (NewWharrgarblr env) ow
              = Inr (records ! 0))
    \<and> (\<forall>i. 1 \<le> i \<and> i < unat (RecordMinLinks gp) \<longrightarrow>
          NewRecord env RecordTypeGenesis [] (map (Hash env) (take i records))
              (now + of_nat i) (NewWharrgarblr env) ow = Inr (records ! i))"
proof -
  from assms obtain gpjson r where j: "json_Marshal_gp env gp = Inr gpjson"
    and o: "NewOwner env t = Inr ow"
    and r: "NewRecord env RecordTypeGenesis gpjson [] now (NewWharrgarblr env) ow = Inr r"
    and l: "genesis_loop env (unat (RecordMinLinks gp)) now ow 1 [r] [Hash env r]
              = Inr records"
    by (auto simp: CreateGenesisRecords_def split: sum.splits)
  have "length [r] = 1" and "[Hash env r] = map (Hash env) [r]"
    by simp_all
  from genesis_loop_result [OF l this]
  have len: "length records = max 1 (unat (RecordMinLinks gp))"
    and tk: "take 1 records = [r]"
    and later: "\<forall>j. 1 \<le> j \<and> j < unat (RecordMinLinks gp) \<longrightarrow>
        NewRecord env RecordTypeGenesis [] (map (Hash env) (take j records)) (now + of_nat j)
          (NewWharrgarblr env) ow = Inr (records ! j)"
    by blast+
  have "records ! 0 = take 1 records ! 0"
    by simp
  with tk have r0: "records ! 0 = r"
    by simp
  from len have "unat (RecordMinLinks gp) \<le> length records"
    by linarith
  with j o r len later r0 show ?thesis
    by blast
qed


theorem CreateGenesisRecords_result_witness:
  "CreateGenesisRecords toy_genesis_env 0 toy_params 100
     = Inr ([([123, 125], [], 100), ([], [[100]], 101), ([], [[100], [101]], 102)], ())
   \<and> length [([123, 125], [], 100), ([], [[100]], 101), ([], [[100], [101]], 102 :: 64 word)]
     = max 1 (unat (RecordMinLinks toy_params))
   \<and> NewRecord toy_genesis_env RecordTypeGenesis [] [[100], [101]] (100 + of_nat 2) () ()
     = Inr ([], [[100], [101]], 102)"
proof -
  have c: "CreateGenesisRecords toy_genesis_env 0 toy_params 100
     = Inr ([([123, 125], [], 100), ([], [[100]], 101), ([], [[100], [101]], 102)], ())"
    by code_simp
  have n: "NewRecord toy_genesis_env RecordTypeGenesis [] [[100], [101]] (100 + of_nat 2) () ()
     = Inr ([], [[100], [101]], 102)"
    by (simp add: toy_genesis_env_def)
  from CreateGenesisRecords_result [OF c] c n show ?thesis
    by simp
qed

section \<open>Properties of the rounded integer square root\<close>

lemma isqrt_bounds: "isqrt n * isqrt n \<le> n \<and> n < (isqrt n + 1) * (isqrt n + 1)"
proof (induction n rule: isqrt.induct)
  case (1 n)
  show ?case
  proof (cases "n = 0")
    case True
    then show ?thesis by (simp add: isqrt.simps)
  next
    case False
    define q where "q = isqrt (n div 4)"
    from "1.IH" [OF False] have lo: "q * q \<le> n div 4" and hi: "n div 4 < (q + 1) * (q + 1)"
      by (simp_all add: q_def)
    from lo have lo': "(2 * q) * (2 * q) \<le> n"
      by simp
    from hi have "n div 4 + 1 \<le> (q + 1) * (q + 1)" by simp
    then have "4 * (n div 4) + 4 \<le> 4 * ((q + 1) * (q + 1))" by simp
    moreover have "n < 4 * (n div 4) + 4"
      by simp
    ultimately have "n < 4 * ((q + 1) * (q + 1))"
      by linarith
    then have hi': "n < (2 * q + 2) * (2 * q + 2)"
      by (simp add: algebra_simps)
    have eq: "isqrt n = (if (2 * q + 1) * (2 * q + 1) \<le> n then 2 * q + 1 else 2 * q)"
      using False by (subst isqrt.simps) (simp add: q_def Let_def)
    show ?thesis
    proof (cases "(2 * q + 1) * (2 * q + 1) \<le> n")
      case True
      with eq hi' show ?thesis by (simp add: algebra_simps)
    next
      case False
      with eq lo' show ?thesis by (simp add: algebra_simps)
    qed
  qed
qed

lemma nearest_root_bounds:
  "n \<le> nearest_root n * nearest_root n + nearest_root n
   \<and> (nearest_root n = 0 \<or> nearest_root n * nearest_root n < n + nearest_root n)"
proof -
  define f where "f = isqrt n"
  from isqrt_bounds [of n] have lo: "f * f \<le> n" and hi: "n < (f + 1) * (f + 1)"
    by (simp_all add: f_def)
  show ?thesis
  proof (cases "n - f * f \<le> f")
    case True
    then have "nearest_root n = f"
      by (simp add: nearest_root_def f_def)
    with True lo show ?thesis by auto
  next
    case False
    then have "nearest_root n = f + 1"
      by (simp add: nearest_root_def f_def)
    with False lo hi show ?thesis by (simp add: algebra_simps)
  qed
qed

lemma nearest_root_pos: "0 < n \<Longrightarrow> 0 < nearest_root n"
  using nearest_root_bounds [of n] by (cases "nearest_root n = 0") auto

lemma nearest_root_mono_aux:
  fixes x y k l :: nat
  assumes kx: "k = 0 \<or> k * k < x + k"
    and ly: "y \<le> l * l + l" and xy: "x \<le> y"
  shows "k \<le> l"
proof (rule ccontr)
  assume "\<not> k \<le> l"
  then obtain d where k: "k = l + 1 + d"
    by (metis Suc_eq_plus1 Suc_leI le_iff_add not_le)
  have "l * l + l + k \<le> k * k"
    unfolding k by (simp add: algebra_simps)
  moreover from k kx have "k * k < x + k" by simp
  ultimately show False using ly xy by linarith
qed

lemma nearest_root_mono: "x \<le> y \<Longrightarrow> nearest_root x \<le> nearest_root y"
  using nearest_root_bounds [of x] nearest_root_bounds [of y]
  by (blast intro: nearest_root_mono_aux)

lemma round_scaled:
  fixes m t k x :: int
  assumes t: "131073 \<le> t" and k: "1 \<le> k" "k \<le> 65536"
    and x: "k * k - k < x" "x \<le> k * k + k"
    and m: "m * m - m < 4 * (t * t) * x" "4 * (t * t) * x \<le> m * m + m" "0 \<le> m"
  shows "(2 * k - 1) * t \<le> m \<and> m < (2 * k + 1) * t"
proof
  define T where "T = t * t"
  have T: "0 < T" using t by (simp add: T_def)
  show "(2 * k - 1) * t \<le> m"
  proof (rule ccontr)
    define L where "L = (2 * k - 1) * t"
    assume "\<not> (2 * k - 1) * t \<le> m"
    then have mL: "m + 1 \<le> L" by (simp add: L_def)
    with m(3) have "m * (m + 1) \<le> (L - 1) * L"
      by (intro mult_mono) auto
    then have "m * m + m \<le> L * L - L"
      by (simp add: algebra_simps)
    moreover have "0 \<le> L" using mL m(3) by simp
    moreover have "L * L = (4 * (k * k - k) + 1) * T"
      by (simp add: L_def T_def algebra_simps)
    moreover from x(1) have "k * k - k + 1 \<le> x" by simp
    with T have "T * (k * k - k + 1) \<le> T * x"
      by (intro mult_left_mono) auto
    then have "4 * (k * k - k) * T + 4 * T \<le> 4 * T * x"
      by (simp add: algebra_simps)
    ultimately show False using m(2) T
      by (simp add: T_def algebra_simps)
  qed
  show "m < (2 * k + 1) * t"
  proof (rule ccontr)
    define U where "U = (2 * k + 1) * t"
    assume "\<not> m < (2 * k + 1) * t"
    then have Um: "U \<le> m" by (simp add: U_def)
    have U1: "1 \<le> U" using k t by (simp add: U_def) (smt (verit) mult_le_0_iff)
    with Um have "U * (U - 1) \<le> m * (m - 1)"
      by (intro mult_mono) auto
    then have "U * U - U \<le> m * m - m"
      by (simp add: algebra_simps)
    moreover have "U * U = (4 * (k * k + k) + 1) * T"
      by (simp add: U_def T_def algebra_simps)
    moreover from x(2) T have "T * x \<le> T * (k * k + k)"
      by (intro mult_left_mono) auto
    then have "4 * T * x \<le> 4 * (k * k + k) * T"
      by (simp add: algebra_simps)
    moreover have "(2 * k + 1) * t \<le> t * t"
      using k t by (intro mult_right_mono) auto
    then have "U \<le> T" by (simp add: U_def T_def)
    ultimately show False using m(1)
      by (simp add: T_def algebra_simps)
  qed
qed

lemma nearest_root_u32: 
  assumes "x < 2 ^ 32"
  shows "nearest_root x \<le> 65536"
proof -
  have "(2 ^ 32 :: nat) \<le> 65536 * 65536 + 65536" and "x \<le> 2 ^ 32"
    using assms by simp_all
  with nearest_root_bounds [of x] show ?thesis
    by (blast intro: nearest_root_mono_aux)
qed

lemma nearest_root_real:
  "\<bar>real (nearest_root n) - sqrt (real n)\<bar> < 1 / 2"
proof -
  define k where "k = nearest_root n"
  from nearest_root_bounds [of n]
  have up: "n \<le> k * k + k" and lo: "k = 0 \<or> k * k < n + k"
    by (simp_all add: k_def)
  from up have "real n \<le> real (k * k + k)"
    by (rule of_nat_mono)
  then have "real n < (real k + 1 / 2)\<^sup>2"
    by (simp add: power2_eq_square algebra_simps)
  then have "sqrt (real n) < real k + 1 / 2"
    by (intro real_less_lsqrt) auto
  moreover have "real k - 1 / 2 < sqrt (real n)"
  proof (cases "k = 0")
    case True
    have "0 \<le> sqrt (real n)" by simp
    with True show ?thesis by linarith
  next
    case False
    with lo have "k * k + 1 \<le> n + k" by simp
    then have "real (k * k + 1) \<le> real (n + k)"
      by (rule of_nat_mono)
    then have "(real k - 1 / 2)\<^sup>2 < real n"
      by (simp add: power2_eq_square algebra_simps)
    moreover from False have "0 \<le> real k - 1 / 2" by simp
    ultimately show ?thesis
      by (intro real_less_rsqrt) auto
  qed
  ultimately show ?thesis
    unfolding k_def by linarith
qed

lemma bitlen_le: "n < 2 ^ b \<Longrightarrow> bitlen n \<le> b"
proof (induction n arbitrary: b rule: bitlen.induct)
  case (1 n)
  show ?case
  proof (cases "n = 0")
    case True
    then show ?thesis by (simp add: bitlen.simps)
  next
    case False
    with "1.prems" obtain c where b: "b = Suc c"
      by (cases b) auto
    with "1.prems" have "n div 2 < 2 ^ c"
      by auto
    from "1.IH" [OF False this] b False show ?thesis
      by (subst bitlen.simps) simp
  qed
qed

lemma float64_Round_Sqrt:
  assumes "x < 2 ^ 32"
  shows "float64_Round (float64_Sqrt x) = nearest_root x"
proof (cases "x = 0")
  case True
  then show ?thesis
    by (simp add: float64_Round_def float64_Sqrt_def nearest_root_def isqrt.simps)
next
  case False
  define s where "s = 52 - (bitlen x - 1) div 2"
  define t :: nat where "t = 2 ^ (s - 1)"
  define m where "m = nearest_root (x * 4 ^ s)"
  define k where "k = nearest_root x"
  from bitlen_le [OF assms] have "37 \<le> s"
    by (simp add: s_def)
  then obtain r where "s = 37 + r"
    using le_Suc_ex by blast
  define u where "u = 36 + r"
  have s: "s = Suc u"
    using \<open>s = 37 + r\<close> by (simp add: u_def)
  have tu: "t = 2 ^ u"
    by (simp add: t_def s)
  have t36: "t = 68719476736 * 2 ^ r"
    by (simp add: tu u_def power_add)
  have "(1 :: nat) \<le> 2 ^ r" by simp
  then have "(68719476736 :: nat) * 1 \<le> 68719476736 * 2 ^ r"
    by (rule mult_le_mono2)
  then have "131073 \<le> 68719476736 * (2 :: nat) ^ r"
    by linarith
  with t36 have tbig: "131073 \<le> t" by simp
  have p2: "2 ^ s = 2 * t"
    by (simp add: tu s)
  have "(4 :: nat) ^ u = (2 * 2) ^ u"
    by simp
  also have "\<dots> = 2 ^ u * 2 ^ u"
    by (rule power_mult_distrib)
  finally have p4: "(4 :: nat) ^ s = 4 * (t * t)"
    by (simp add: tu s)
  from False have kpos: "1 \<le> k"
    using nearest_root_pos [of x] by (simp add: k_def)
  from nearest_root_u32 [OF assms] have kle: "k \<le> 65536"
    by (simp add: k_def)
  from nearest_root_bounds [of x] kpos
  have xb: "k * k < x + k" "x \<le> k * k + k"
    by (auto simp: k_def)
  from False have "0 < x * 4 ^ s" by simp
  then have mpos: "1 \<le> m"
    using nearest_root_pos [of "x * 4 ^ s"] by (simp add: m_def)
  from nearest_root_bounds [of "x * 4 ^ s"] mpos
  have mb: "m * m < 4 * (t * t) * x + m" "4 * (t * t) * x \<le> m * m + m"
    by (auto simp: m_def p4 mult.commute)
  have "(2 * int k - 1) * int t \<le> int m \<and> int m < (2 * int k + 1) * int t"
  proof (rule round_scaled)
    show "131073 \<le> int t" using tbig by simp
    show "1 \<le> int k" using kpos by simp
    show "int k \<le> 65536" using kle by simp
    from xb(1) have "int (k * k) < int (x + k)"
      by (simp only: of_nat_less_iff)
    then show "int k * int k - int k < int x"
      by simp
    from xb(2) have "int x \<le> int (k * k + k)"
      by (simp only: of_nat_le_iff)
    then show "int x \<le> int k * int k + int k"
      by simp
    from mb(1) have "int (m * m) < int (4 * (t * t) * x + m)"
      by (simp only: of_nat_less_iff)
    then show "int m * int m - int m < 4 * (int t * int t) * int x"
      by simp
    from mb(2) have "int (4 * (t * t) * x) \<le> int (m * m + m)"
      by (simp only: of_nat_le_iff)
    then show "4 * (int t * int t) * int x \<le> int m * int m + int m"
      by simp
    show "0 \<le> int m" by simp
  qed
  then have "int (4 * t * k) \<le> int (2 * m + 2 * t)"
    and "int (2 * m + 2 * t) < int (4 * t * Suc k)"
    by (simp_all add: algebra_simps)
  then have "4 * t * k \<le> 2 * m + 2 * t" and "2 * m + 2 * t < 4 * t * Suc k"
    by (simp_all only: of_nat_le_iff of_nat_less_iff)
  then have "(2 * m + 2 * t) div (4 * t) = k"
    by (rule div_nat_eqI)
  moreover have "float64_Sqrt x = (m, s)"
    using False by (simp add: float64_Sqrt_def Let_def m_def s_def)
  then have "float64_Round (float64_Sqrt x) = (2 * m + 2 * t) div (4 * t)"
    by (simp add: float64_Round_def p2)
  ultimately show ?thesis by (simp add: k_def)
qed


text \<open>
  A check of the model against a known value: the \<^verbatim>\<open>float64\<close> square root of 2 is
  \<^verbatim>\<open>0x3FF6A09E667F3BCD\<close>, that is \<open>0x16A09E667F3BCD / 2 ^ 52\<close>.
\<close>

lemma float64_Sqrt_2: "float64_Sqrt 2 = (6369051672525773, 52)"
proof -
  have b: "bitlen 2 = 2"
    by (simp add: bitlen.simps)
  have "isqrt (2 * 4 ^ 52) = 6369051672525772"
    by (simp add: isqrt.simps)
  then have "nearest_root (2 * 4 ^ 52) = 6369051672525773"
    by (simp add: nearest_root_def)
  with b show ?thesis
    by (simp add: float64_Sqrt_def)
qed


text \<open>
  C5. \<open>integerSqrtRounded\<close> is monotone on 32-bit unsigned arguments, and its result
  is the integer nearest to the real square root of the argument: it differs from the
  root by less than one half. It is the nearest root computed on integers.
\<close>

theorem integerSqrtRounded_monotone_nearest:
  "(op1 \<le> op2 \<longrightarrow> integerSqrtRounded op1 \<le> integerSqrtRounded op2)
   \<and> \<bar>real (unat (integerSqrtRounded op)) - sqrt (real (unat op))\<bar> < 1 / 2
   \<and> unat (integerSqrtRounded op) = nearest_root (unat op)"
proof -
  have val: "unat (integerSqrtRounded w) = nearest_root (unat w)" for w
  proof -
    have lt: "unat w < 2 ^ 32"
      using unsigned_less [of w, where ?'a = nat] by simp
    from nearest_root_u32 [OF lt] have "nearest_root (unat w) < 2 ^ 32"
      by simp
    then have "unat (of_nat (nearest_root (unat w)) :: 32 word) = nearest_root (unat w)"
      by (simp add: unat_of_nat)
    with float64_Round_Sqrt [OF lt] show ?thesis
      by (simp add: integerSqrtRounded_def)
  qed
  have "integerSqrtRounded op1 \<le> integerSqrtRounded op2" if "op1 \<le> op2"
    using that nearest_root_mono [of "unat op1" "unat op2"]
    by (simp add: word_le_nat_alt val)
  moreover have "\<bar>real (unat (integerSqrtRounded op)) - sqrt (real (unat op))\<bar> < 1 / 2"
    using nearest_root_real [of "unat op"] by (simp add: val)
  ultimately show ?thesis
    using val [of op] by blast
qed

theorem integerSqrtRounded_monotone_nearest_witness:
  "(2 :: 32 word) \<le> 3 \<and> integerSqrtRounded 2 \<le> integerSqrtRounded 3
   \<and> unat (integerSqrtRounded 2) = 1 \<and> unat (integerSqrtRounded 3) = 2
   \<and> unat (integerSqrtRounded 4294967295) = 65536"
proof -
  have i: "isqrt 2 = 1" "isqrt 3 = 1"
    by (simp_all add: isqrt.simps)
  have r: "nearest_root 2 = 1" "nearest_root 3 = 2"
    by (simp_all add: nearest_root_def i)
  have "isqrt 4294967295 = 65535"
    by (simp add: isqrt.simps)
  then have r': "nearest_root 4294967295 = 65536"
    by (simp add: nearest_root_def)
  from integerSqrtRounded_monotone_nearest [of 2 3 2]
    integerSqrtRounded_monotone_nearest [of 2 3 3]
    integerSqrtRounded_monotone_nearest [of 2 3 4294967295]
  show ?thesis
    by (simp add: r r')
qed

section \<open>Properties of the record store\<close>

subsection \<open>Lookup by hash\<close>

lemma lookup_goff_None_iff: "lookup_goff h rs = None \<longleftrightarrow> h \<notin> r_hash ` set rs"
  by (induction rs) auto

lemma lookup_goff_Some:
  "lookup_goff h rs = Some g \<Longrightarrow> g < length rs \<and> r_hash (rs ! g) = h"
  by (induction rs arbitrary: g) (auto split: if_splits)

lemma lookup_goff_nth:
  "distinct (map r_hash rs) \<Longrightarrow> g < length rs \<Longrightarrow> lookup_goff (r_hash (rs ! g)) rs = Some g"
proof (induction rs arbitrary: g)
  case Nil
  then show ?case by simp
next
  case (Cons r rs)
  show ?case
  proof (cases g)
    case 0
    then show ?thesis by simp
  next
    case (Suc k)
    with Cons.prems have "r_hash (rs ! k) \<noteq> r_hash r"
      by (metis distinct.simps(2) image_eqI list.simps(9) list.set_map nth_mem Suc_less_eq length_Cons)
    with Suc Cons show ?thesis by simp
  qed
qed

lemma lookup_goff_append:
  "lookup_goff h (rs @ [r]) =
     (case lookup_goff h rs of Some g \<Rightarrow> Some g
      | None \<Rightarrow> if r_hash r = h then Some (length rs) else None)"
  by (induction rs) (auto split: option.splits)

subsection \<open>Saturating sums\<close>

lemma unat_sat_add: "unat (sat_add a b) = min (2 ^ 128 - 1) (unat a + unat b)"
proof (cases "unat a + unat b < 2 ^ 128")
  case True
  then have "unat (a + b) = unat a + unat b"
    by (simp add: unat_word_ariths)
  with True show ?thesis
    by (simp add: sat_add_def)
next
  case False
  have "unat (- 1 :: weight) = 2 ^ 128 - 1"
    by (simp add: unsigned_minus_1_eq_mask mask_eq_exp_minus_1)
  with False show ?thesis
    by (simp add: sat_add_def)
qed

lemma capped_sum_empty: "capped_sum contrib {} = 0"
  by (simp add: capped_sum_def)

lemma capped_sum_insert:
  assumes "finite R" and "r \<notin> R"
  shows "capped_sum contrib (insert r R) =
     min (2 ^ 128 - 1) (capped_sum contrib R + unat (contrib (r_work r)))"
  using assms by (simp add: capped_sum_def min_def)


subsection \<open>Admission\<close>

lemma getByHash_None_iff: "getByHash st h = None \<longleftrightarrow> h \<notin> r_hash ` admitted st"
  by (simp add: getByHash_def admitted_def lookup_goff_None_iff)

lemma put_cases:
  obtains (exists) g where "getByHash st (r_hash r) = Some g" "put st r = (Inr AlreadyExists, st)"
  | (invalid) "getByHash st (r_hash r) = None" "r_hash r \<in> set (r_links r)"
      "put st r = (Inl ValidationError, st)"
  | (stored) "getByHash st (r_hash r) = None" "r_hash r \<notin> set (r_links r)"
      "fst (put st r) = Inr Stored"
      "rows (snd (put st r)) = rows st @ [r]"
      "weights (snd (put st r)) = weights st @ [0]"
      "pending (snd (put st r)) = pending st @ [True]"
  by (cases "getByHash st (r_hash r)"; cases "r_hash r \<in> set (r_links r)")
    (auto simp: put_def Let_def)

lemma applied_subset_admitted: "applied st \<subseteq> admitted st"
  by (auto simp: applied_def admitted_def)

lemma applicable_subset: "applicable S \<subseteq> S"
  by (auto elim: applicable.cases)

lemma applicable_mono: "S \<subseteq> T \<Longrightarrow> applicable S \<subseteq> applicable T"
proof
  fix r
  assume "S \<subseteq> T" and "r \<in> applicable S"
  from this(2) show "r \<in> applicable T"
  proof (induction rule: applicable.induct)
    case (1 r)
    from "1.hyps" \<open>S \<subseteq> T\<close> have "r \<in> T"
      by blast
    moreover have "\<exists>r'. r' \<in> applicable T \<and> r_hash r' = h" if "h \<in> set (r_links r)" for h
      using "1.IH" [OF that] by blast
    ultimately show ?case
      by (rule applicable.intros)
  qed
qed

lemma applied_append_pending:
  assumes "rows st' = rows st @ [r]" and "pending st' = pending st @ [True]"
    and "length (pending st) = length (rows st)"
  shows "applied st' = applied st"
proof -
  have "\<And>g. g < length (rows st) \<Longrightarrow> (rows st @ [r]) ! g = rows st ! g"
    and "\<And>g. g < length (rows st) \<Longrightarrow> (pending st @ [True]) ! g = pending st ! g"
    using assms(3) by (simp_all add: nth_append)
  moreover have "\<And>g. g < Suc (length (rows st)) \<Longrightarrow> \<not> (pending st @ [True]) ! g
      \<Longrightarrow> g < length (rows st)"
    using assms(3) by (auto simp: nth_append less_Suc_eq)
  ultimately show ?thesis
    using assms unfolding applied_def by (auto simp: less_Suc_eq) (metis+)
qed

lemma store_ok_put:
  assumes ok: "store_ok contrib st"
  shows "store_ok contrib (snd (put st r))"
proof (cases rule: put_cases [of st r])
  case (exists g)
  with ok show ?thesis by simp
next
  case invalid
  with ok show ?thesis by simp
next
  case stored
  let ?st = "snd (put st r)"
  from ok have wf: "well_formed st"
    and sub: "applied st \<subseteq> applicable (admitted st)"
    and closed: "\<And>r0 h. r0 \<in> applied st \<Longrightarrow> h \<in> set (r_links r0)
        \<Longrightarrow> \<exists>r'. r' \<in> applied st \<and> r_hash r' = h"
    and w: "\<And>g. g < length (rows st) \<Longrightarrow>
        unat (weights st ! g) = capped_sum contrib (linkers st (r_hash (rows st ! g)))"
    by (auto simp: store_ok_def)
  from wf have len: "length (weights st) = length (rows st)"
      "length (pending st) = length (rows st)"
    and dist: "distinct (map r_hash (rows st))"
    by (simp_all add: well_formed_def)
  from stored(1) have fresh: "r_hash r \<notin> r_hash ` admitted st"
    by (simp add: getByHash_None_iff)
  have app: "applied ?st = applied st"
    using stored(4,6) len(2) by (rule applied_append_pending)
  have adm: "admitted ?st = insert r (admitted st)"
    by (simp add: admitted_def stored(4))
  have wf': "well_formed ?st"
    using len dist fresh by (simp add: well_formed_def stored admitted_def)
  have sub': "applied ?st \<subseteq> applicable (admitted ?st)"
    using sub applicable_mono [of "admitted st" "admitted ?st"] by (auto simp: app adm)
  have lk: "linkers ?st h = linkers st h" for h
    by (simp add: linkers_def app)
  have none: "linkers st (r_hash r) = {}"
  proof (rule ccontr)
    assume "linkers st (r_hash r) \<noteq> {}"
    then obtain r0 where "r0 \<in> applied st" "r_hash r \<in> set (r_links r0)"
      by (auto simp: linkers_def)
    from closed [OF this] obtain r' where r': "r' \<in> applied st" "r_hash r' = r_hash r"
      by blast
    from r'(1) applied_subset_admitted [of st] have "r' \<in> admitted st"
      by blast
    then have "r_hash r' \<in> r_hash ` admitted st"
      by (rule imageI)
    with r'(2) fresh show False
      by simp
  qed
  have "unat (weights ?st ! g) = capped_sum contrib (linkers ?st (r_hash (rows ?st ! g)))"
    if "g < length (rows ?st)" for g
  proof (cases "g < length (rows st)")
    case True
    with w [OF True] len show ?thesis
      by (simp add: stored lk nth_append)
  next
    case False
    with that have "g = length (rows st)"
      by (simp add: stored)
    with len none show ?thesis
      by (simp add: stored lk nth_append capped_sum_empty)
  qed
  then have "\<forall>g. g < length (rows ?st) \<longrightarrow>
      unat (weights ?st ! g) = capped_sum contrib (linkers ?st (r_hash (rows ?st ! g)))"
    by blast
  moreover from closed have "\<forall>r h. r \<in> applied ?st \<and> h \<in> set (r_links r) \<longrightarrow>
      (\<exists>r'. r' \<in> applied ?st \<and> r_hash r' = h)"
    unfolding app by blast
  ultimately show ?thesis
    unfolding store_ok_def using wf' sub' by (intro conjI)
qed



subsection \<open>One step of the worker\<close>

lemma getByHash_nth:
  "well_formed st \<Longrightarrow> g < length (rows st) \<Longrightarrow> getByHash st (r_hash (rows st ! g)) = Some g"
  by (simp add: well_formed_def getByHash_def lookup_goff_nth)

lemma getByHash_Some:
  "getByHash st h = Some g \<Longrightarrow> g < length (rows st) \<and> r_hash (rows st ! g) = h"
  by (simp add: getByHash_def lookup_goff_Some)

lemma well_formed_add_to_link: "well_formed st \<Longrightarrow> well_formed (add_to_link d h st)"
  by (simp add: well_formed_def add_to_link_def addWeight_def split: option.splits)

lemma weights_add_to_link:
  assumes "well_formed st" and "t < length (rows st)"
  shows "weights (add_to_link d h st) ! t =
     (if r_hash (rows st ! t) = h then sat_add (weights st ! t) d else weights st ! t)"
proof (cases "getByHash st h")
  case None
  then have "h \<notin> r_hash ` set (rows st)"
    by (simp add: getByHash_None_iff admitted_def)
  moreover from assms(2) have "r_hash (rows st ! t) \<in> r_hash ` set (rows st)"
    by (intro imageI nth_mem)
  ultimately have "r_hash (rows st ! t) \<noteq> h"
    by blast
  with None show ?thesis
    by (simp add: add_to_link_def)
next
  case (Some t0)
  from getByHash_Some [OF Some] have t0: "t0 < length (rows st)" "r_hash (rows st ! t0) = h"
    by simp_all
  from assms t0(1) have len: "t0 < length (weights st)" "t < length (weights st)"
    by (simp_all add: well_formed_def)
  have ws: "weights (add_to_link d h st) = (weights st)[t0 := sat_add (weights st ! t0) d]"
    using Some len(1) by (simp add: add_to_link_def addWeight_def readWeight_def)
  show ?thesis
  proof (cases "t = t0")
    case True
    with t0(2) len show ?thesis
      by (simp add: ws)
  next
    case False
    have "r_hash (rows st ! t) \<noteq> h"
    proof
      assume "r_hash (rows st ! t) = h"
      with getByHash_nth [OF assms] Some have "t = t0"
        by simp
      with False show False ..
    qed
    with False show ?thesis
      by (simp add: ws)
  qed
qed

lemma weights_fold_add:
  assumes "well_formed st" and "t < length (rows st)" and "distinct hs"
  shows "weights (fold (add_to_link d) hs st) ! t =
     (if r_hash (rows st ! t) \<in> set hs then sat_add (weights st ! t) d else weights st ! t)"
  using assms
proof (induction hs arbitrary: st)
  case Nil
  then show ?case by simp
next
  case (Cons h hs)
  let ?st = "add_to_link d h st"
  from Cons.prems have wf: "well_formed ?st" and t: "t < length (rows ?st)"
    and d: "distinct hs" and nh: "h \<notin> set hs"
    by (simp_all add: well_formed_add_to_link)
  from Cons.IH [OF wf t d] weights_add_to_link [OF Cons.prems(1,2), of d h] nh
  show ?case
    by auto
qed

lemma well_formed_fold_add: "well_formed st \<Longrightarrow> well_formed (fold (add_to_link d) hs st)"
  by (induction hs arbitrary: st) (simp_all add: well_formed_add_to_link)

lemma weights_apply_weight:
  assumes "well_formed st" and "t < length (rows st)"
  shows "weights (apply_weight contrib st g) ! t =
     (if r_hash (rows st ! t) \<in> set (r_links (rows st ! g))
      then sat_add (weights st ! t) (contrib (r_work (rows st ! g))) else weights st ! t)"
  using weights_fold_add [OF assms, of "remdups (r_links (rows st ! g))"]
  by (simp add: apply_weight_def Let_def)

lemma well_formed_apply_weight:
  assumes "well_formed st"
  shows "well_formed (apply_weight contrib st g)"
proof -
  from well_formed_fold_add [OF assms]
  have "well_formed (fold (add_to_link (contrib (r_work (rows st ! g))))
      (remdups (r_links (rows st ! g))) st)" .
  then show ?thesis
    by (simp add: well_formed_def apply_weight_def Let_def)
qed

lemma applied_apply_weight:
  assumes "ready st g"
  shows "applied (apply_weight contrib st g) = insert (rows st ! g) (applied st)"
proof -
  from assms have g: "g < length (rows st)" "g < length (pending st)"
    by (simp_all add: ready_def)
  have "\<not> (pending st)[g := False] ! i \<longleftrightarrow> i = g \<or> \<not> pending st ! i"
    if "i < length (pending st)" for i
    using that by (cases "i = g") simp_all
  then have "applied (apply_weight contrib st g) =
      {rows st ! i | i. i < length (rows st) \<and> i < length (pending st)
          \<and> (i = g \<or> \<not> pending st ! i)}"
    unfolding applied_def by auto
  also have "\<dots> = insert (rows st ! g) (applied st)"
    unfolding applied_def using g by auto
  finally show ?thesis .
qed

lemma not_applied_pending:
  assumes "well_formed st" and "g < length (rows st)" and "pending st ! g"
  shows "rows st ! g \<notin> applied st"
proof
  assume "rows st ! g \<in> applied st"
  then obtain i where i: "i < length (rows st)" "\<not> pending st ! i" "rows st ! i = rows st ! g"
    by (auto simp: applied_def)
  from getByHash_nth [OF assms(1) i(1)]
  have "getByHash st (r_hash (rows st ! g)) = Some i"
    by (simp only: i(3))
  with getByHash_nth [OF assms(1,2)] have "i = g"
    by simp
  with i(2) assms(3) show False
    by simp
qed

lemma fully_applied_applied:
  assumes "fully_applied st h"
  shows "\<exists>r'. r' \<in> applied st \<and> r_hash r' = h"
proof -
  from assms obtain g where g: "getByHash st h = Some g" "g < length (pending st)"
      "\<not> pending st ! g"
    by (auto simp: fully_applied_def split: option.splits)
  from getByHash_Some [OF g(1)] g(2,3) have "rows st ! g \<in> applied st"
    by (auto simp: applied_def)
  with getByHash_Some [OF g(1)] show ?thesis
    by blast
qed

lemma finite_linkers: "finite (linkers st h)"
proof -
  have "linkers st h \<subseteq> set (rows st)"
    using applied_subset_admitted [of st] by (auto simp: linkers_def admitted_def)
  then show ?thesis
    by (rule finite_subset) simp
qed

lemma store_ok_apply_weight:
  assumes ok: "store_ok contrib st" and rdy: "ready st g"
  shows "store_ok contrib (apply_weight contrib st g)"
proof -
  let ?st = "apply_weight contrib st g"
  let ?r = "rows st ! g"
  from ok have wf: "well_formed st"
    and sub: "applied st \<subseteq> applicable (admitted st)"
    and closed: "\<And>r0 h. r0 \<in> applied st \<Longrightarrow> h \<in> set (r_links r0)
        \<Longrightarrow> \<exists>r'. r' \<in> applied st \<and> r_hash r' = h"
    and w: "\<And>t. t < length (rows st) \<Longrightarrow>
        unat (weights st ! t) = capped_sum contrib (linkers st (r_hash (rows st ! t)))"
    by (auto simp: store_ok_def)
  from rdy have g: "g < length (rows st)" "pending st ! g"
    and links: "\<And>h. h \<in> set (r_links ?r) \<Longrightarrow> fully_applied st h"
    by (auto simp: ready_def list_all_iff)
  have app: "applied ?st = insert ?r (applied st)"
    using rdy by (rule applied_apply_weight)
  have adm: "admitted ?st = admitted st"
    by (simp add: admitted_def)
  have new: "?r \<notin> applied st"
    using wf g by (rule not_applied_pending)
  have rl: "\<exists>r'. r' \<in> applied st \<and> r_hash r' = h" if "h \<in> set (r_links ?r)" for h
    using links [OF that] by (rule fully_applied_applied)
  have "?r \<in> admitted st"
    using g(1) by (simp add: admitted_def)
  moreover have "\<exists>r'. r' \<in> applicable (admitted st) \<and> r_hash r' = h"
    if "h \<in> set (r_links ?r)" for h
    using rl [OF that] sub by blast
  ultimately have "?r \<in> applicable (admitted st)"
    by (rule applicable.intros)
  with sub have sub': "applied ?st \<subseteq> applicable (admitted ?st)"
    by (simp add: app adm)
  have closed': "\<forall>r0 h. r0 \<in> applied ?st \<and> h \<in> set (r_links r0) \<longrightarrow>
      (\<exists>r'. r' \<in> applied ?st \<and> r_hash r' = h)"
    unfolding app using closed rl by blast
  have "unat (weights ?st ! t) = capped_sum contrib (linkers ?st (r_hash (rows ?st ! t)))"
    if t: "t < length (rows ?st)" for t
  proof -
    from t have t': "t < length (rows st)"
      by simp
    let ?h = "r_hash (rows st ! t)"
    show ?thesis
    proof (cases "?h \<in> set (r_links ?r)")
      case True
      then have "linkers ?st ?h = insert ?r (linkers st ?h)"
        by (auto simp: linkers_def app)
      moreover from new have "?r \<notin> linkers st ?h"
        by (simp add: linkers_def)
      ultimately have "capped_sum contrib (linkers ?st ?h)
          = min (2 ^ 128 - 1) (capped_sum contrib (linkers st ?h) + unat (contrib (r_work ?r)))"
        using finite_linkers [of st ?h] by (simp add: capped_sum_insert)
      with True w [OF t'] show ?thesis
        by (simp add: weights_apply_weight [OF wf t'] unat_sat_add)
    next
      case False
      then have "linkers ?st ?h = linkers st ?h"
        by (auto simp: linkers_def app)
      with False w [OF t'] show ?thesis
        by (simp add: weights_apply_weight [OF wf t'])
    qed
  qed
  then have "\<forall>t. t < length (rows ?st) \<longrightarrow>
      unat (weights ?st ! t) = capped_sum contrib (linkers ?st (r_hash (rows ?st ! t)))"
    by blast
  with well_formed_apply_weight [OF wf] sub' closed' show ?thesis
    unfolding store_ok_def by (intro conjI)
qed


subsection \<open>The worker loop and deliveries\<close>

lemma quiescent_not_ready:
  assumes "quiescent st"
  shows "\<not> ready st g"
proof
  assume r: "ready st g"
  then have "g \<in> set (getRecordsForWeightApplication st)"
    by (simp add: ready_def getRecordsForWeightApplication_def)
  with assms r show False
    by (simp add: quiescent_def find_None_iff)
qed


lemma applied_quiescent:
  assumes ok: "store_ok contrib st" and q: "quiescent st"
  shows "applied st = applicable (admitted st)"
proof
  from ok show "applied st \<subseteq> applicable (admitted st)"
    by (simp add: store_ok_def)
  from ok have wf: "well_formed st"
    by (simp add: store_ok_def)
  show "applicable (admitted st) \<subseteq> applied st"
  proof
    fix r
    assume "r \<in> applicable (admitted st)"
    then show "r \<in> applied st"
    proof (induction rule: applicable.induct)
      case (1 r)
      from "1.hyps" obtain g where g: "g < length (rows st)" "rows st ! g = r"
        by (auto simp: admitted_def in_set_conv_nth)
      with wf have gp: "g < length (pending st)"
        by (simp add: well_formed_def)
      have "fully_applied st h" if "h \<in> set (r_links r)" for h
      proof -
        from "1.IH" [OF that] obtain r' where "r' \<in> applied st" "r_hash r' = h"
          by blast
        then obtain i where i: "i < length (rows st)" "i < length (pending st)"
            "\<not> pending st ! i" "r_hash (rows st ! i) = h"
          by (auto simp: applied_def)
        from getByHash_nth [OF wf i(1)] i(4) have "getByHash st h = Some i"
          by simp
        with i(2,3) show ?thesis
          by (simp add: fully_applied_def)
      qed
      then have "list_all (fully_applied st) (r_links (rows st ! g))"
        by (simp add: list_all_iff g(2))
      with quiescent_not_ready [OF q, of g] g(1) gp have "\<not> pending st ! g"
        by (auto simp: ready_def)
      with g gp show ?case
        by (auto simp: applied_def)
    qed
  qed
qed

lemma store_ok_empty: "store_ok contrib empty_store \<and> quiescent empty_store"
  by (simp add: store_ok_def well_formed_def empty_store_def applied_def quiescent_def
      getRecordsForWeightApplication_def)





lemma reachable_store_ok: "reachable contrib st \<Longrightarrow> store_ok contrib st"
proof (induction rule: reachable.induct)
  case reachable_empty
  show ?case
    by (simp add: store_ok_empty)
next
  case (reachable_put st r)
  then show ?case
    by (simp add: store_ok_put)
next
  case (reachable_apply st g)
  then show ?case
    by (simp add: store_ok_apply_weight)
qed

lemma reachable_well_formed: "reachable contrib st \<Longrightarrow> well_formed st"
  using reachable_store_ok [of contrib st] by (simp add: store_ok_def)

lemma reachable_propagate: "reachable contrib st \<Longrightarrow> reachable contrib (propagate contrib st)"
proof (induction contrib st rule: propagate.induct)
  case (1 contrib st)
  show ?case
  proof (cases "find (ready st) (getRecordsForWeightApplication st)")
    case None
    with "1.prems" show ?thesis
      by (subst propagate.simps) simp
  next
    case (Some g)
    then have "ready st g"
      by (auto simp: find_Some_iff)
    with "1.prems" have "reachable contrib (apply_weight contrib st g)"
      by (rule reachable_apply)
    from "1.IH" [OF Some this] Some show ?thesis
      by (subst propagate.simps) simp
  qed
qed

lemma reachable_foldl_ingest:
  "reachable contrib st \<Longrightarrow> reachable contrib (foldl (ingest contrib) st rs)"
proof (induction rs arbitrary: st)
  case Nil
  then show ?case by simp
next
  case (Cons r rs)
  from Cons.prems have "reachable contrib (ingest contrib st r)"
    unfolding ingest_def by (intro reachable_propagate reachable_put)
  from Cons.IH [OF this] show ?case
    by simp
qed

lemma reachable_deliver: "reachable contrib (deliver contrib rs)"
  unfolding deliver_def by (intro reachable_foldl_ingest reachable_empty)

subsection \<open>The final state does not depend on the order\<close>

lemma weight_of_store_ok:
  assumes "store_ok contrib st"
  shows "(h \<notin> r_hash ` admitted st \<longrightarrow> weight_of st h = None)
     \<and> (h \<in> r_hash ` admitted st \<longrightarrow>
          (\<exists>w. weight_of st h = Some w \<and> unat w = capped_sum contrib (linkers st h)))"
proof (cases "getByHash st h")
  case None
  then show ?thesis
    by (simp add: weight_of_def getByHash_None_iff)
next
  case (Some g)
  from getByHash_Some [OF Some] have g: "g < length (rows st)" "r_hash (rows st ! g) = h"
    by simp_all
  with assms have "unat (weights st ! g) = capped_sum contrib (linkers st h)"
    and "g < length (weights st)"
    by (auto simp: store_ok_def well_formed_def)
  moreover from Some have "h \<in> r_hash ` admitted st"
    using getByHash_None_iff [of st h] by simp
  ultimately show ?thesis
    using Some by (simp add: weight_of_def readWeight_def)
qed

lemma final_weight_determined:
  assumes "store_ok contrib st1" "quiescent st1" "store_ok contrib st2" "quiescent st2"
    and "admitted st1 = admitted st2"
  shows "weight_of st1 h = weight_of st2 h"
proof -
  from applied_quiescent [OF assms(1,2)] applied_quiescent [OF assms(3,4)] assms(5)
  have "linkers st1 h = linkers st2 h"
    by (simp add: linkers_def)
  with weight_of_store_ok [OF assms(1), of h] weight_of_store_ok [OF assms(3), of h] assms(5)
  show ?thesis
    by (cases "h \<in> r_hash ` admitted st2") (auto simp: word_unat_eq_iff)
qed


lemma hash_less_irrefl: "\<not> hash_less h h"
  by (induction h) simp_all

lemma hash_less_trans: "hash_less a b \<Longrightarrow> hash_less b c \<Longrightarrow> hash_less a c"
proof (induction a b arbitrary: c rule: hash_less.induct)
  case 1
  then show ?case by simp
next
  case (2 y ys)
  then show ?case by (cases c) simp_all
next
  case (3 x xs)
  then show ?case by simp
next
  case (4 x xs y ys)
  then show ?case by (cases c) auto
qed

lemma hash_less_total: "a \<noteq> b \<Longrightarrow> hash_less a b \<or> hash_less b a"
  by (induction a b rule: hash_less.induct) auto

lemma beats_irrefl: "\<not> beats p p"
  by (simp add: beats_def hash_less_irrefl)

lemma beats_trans: "beats p q \<Longrightarrow> beats q r \<Longrightarrow> beats p r"
  by (auto simp: beats_def intro: hash_less_trans)

lemma beats_asym: "beats p q \<Longrightarrow> \<not> beats q p"
  using beats_trans [of p q p] beats_irrefl [of p] by blast

lemma beats_total: "p \<noteq> q \<Longrightarrow> beats p q \<or> beats q p"
  using hash_less_total [of "snd p" "snd q"]
  by (cases p; cases q) (auto simp: beats_def)

lemma pick_best_None: "pick_best cs = None \<longleftrightarrow> cs = []"
  by (cases cs) (simp_all split: option.splits)

lemma pick_best_Some:
  "pick_best cs = Some m \<Longrightarrow> m \<in> set cs \<and> (\<forall>c. c \<in> set cs \<and> c \<noteq> m \<longrightarrow> beats m c)"
proof (induction cs arbitrary: m)
  case Nil
  then show ?case by simp
next
  case (Cons c cs)
  show ?case
  proof (cases "pick_best cs")
    case None
    with Cons.prems show ?thesis
      by (simp add: pick_best_None)
  next
    case (Some b)
    from Cons.IH [OF Some] have b: "b \<in> set cs" "\<And>x. x \<in> set cs \<Longrightarrow> x \<noteq> b \<Longrightarrow> beats b x"
      by blast+
    show ?thesis
    proof (cases "beats c b")
      case True
      with Some Cons.prems have m: "m = c"
        by simp
      have "beats c x" if "x \<in> set cs" "x \<noteq> c" for x
        using b(2) [OF that(1)] True beats_trans [of c b x] by (cases "x = b") auto
      with m show ?thesis
        by auto
    next
      case False
      with Some Cons.prems have m: "m = b"
        by simp
      from False beats_total [of c b] have "c = b \<or> beats b c"
        by blast
      with m b show ?thesis
        by auto
    qed
  qed
qed


text \<open>
  Whatever the interleaving of admissions and worker steps: two stores that have admitted
  the same records and where the worker has nothing left to do agree on every weight.
\<close>

lemma reachable_final_weight:
  assumes "reachable contrib st1" "quiescent st1" "reachable contrib st2" "quiescent st2"
    and "admitted st1 = admitted st2"
  shows "weight_of st1 h = weight_of st2 h"
  using reachable_store_ok [OF assms(1)] assms(2) reachable_store_ok [OF assms(3)] assms(4,5)
  by (rule final_weight_determined)


subsection \<open>Evaluated deliveries\<close>

lemmas store_eval = deliver_def ingest_def put_def propagate.simps empty_store_def
  getByHash_def getRecordsForWeightApplication_def ready_def fully_applied_def
  apply_weight_def add_to_link_def addWeight_def readWeight_def sat_add_def
  rec_G_def rec_A_def rec_B_def Let_def

lemma deliver_G_A_B: "deliver ucast [rec_G, rec_A, rec_B] =
  \<lparr>rows = [rec_G, rec_A, rec_B], weights = [7, 0, 0], pending = [False, False, False],
   dangling = []\<rparr>"
  by (simp add: store_eval)



subsection \<open>Idempotent admission\<close>





subsection \<open>Order of delivery\<close>




subsection \<open>The authoritative revision\<close>

lemma revision_in_revisions:
  "is_revision st sel g \<Longrightarrow>
   (readWeight st g, r_hash (rows st ! g)) \<in> set (revisions st sel)"
  by (auto simp: revisions_def is_revision_def)

text \<open>
  C3. In every store that can arise, of two different fully weight-applied records that
  carry the same selector, the one
  with the strictly greater cumulative weight, or at equal weights the one with the
  lexicographically smaller hash, prevails: the other one is never the authoritative
  revision of the selector, and when no third revision carries the selector the
  prevailing one is the authoritative revision.
\<close>

theorem authoritative_tie_break:
  assumes "reachable contrib st" and "is_revision st sel ga" and "is_revision st sel gb"
    and "ga \<noteq> gb"
    and "readWeight st gb < readWeight st ga
       \<or> (readWeight st ga = readWeight st gb
           \<and> hash_less (r_hash (rows st ! ga)) (r_hash (rows st ! gb)))"
  shows "beats (readWeight st ga, r_hash (rows st ! ga)) (readWeight st gb, r_hash (rows st ! gb))
    \<and> authoritative st sel \<noteq> Some (r_hash (rows st ! gb))
    \<and> ((\<forall>g. is_revision st sel g \<longrightarrow> g = ga \<or> g = gb) \<longrightarrow>
          authoritative st sel = Some (r_hash (rows st ! ga)))"
proof -
  let ?a = "(readWeight st ga, r_hash (rows st ! ga))"
  let ?b = "(readWeight st gb, r_hash (rows st ! gb))"
  from assms(1) have wf: "well_formed st"
    by (rule reachable_well_formed)
  from assms(5) have ab: "beats ?a ?b"
    by (auto simp: beats_def)
  have ina: "?a \<in> set (revisions st sel)"
    using assms(2) by (rule revision_in_revisions)
  then obtain m where m: "pick_best (revisions st sel) = Some m"
    using pick_best_None [of "revisions st sel"]
    by (cases "pick_best (revisions st sel)") auto
  from pick_best_Some [OF m]
  have mem: "m \<in> set (revisions st sel)"
    and best: "\<And>c. c \<in> set (revisions st sel) \<Longrightarrow> c \<noteq> m \<Longrightarrow> beats m c"
    by blast+
  from mem obtain g where g: "is_revision st sel g" "m = (readWeight st g, r_hash (rows st ! g))"
    by (auto simp: revisions_def)
  have not_b: "m \<noteq> ?b"
  proof
    assume "m = ?b"
    moreover have "?a \<noteq> ?b"
    proof
      assume "?a = ?b"
      with ab have "beats ?b ?b"
        by (simp only:)
      then show False
        by (simp add: beats_irrefl)
    qed
    ultimately have "beats ?b ?a"
      using best [OF ina] by blast
    with ab show False
      using beats_asym by blast
  qed
  have hb: "snd m \<noteq> r_hash (rows st ! gb)"
  proof
    assume "snd m = r_hash (rows st ! gb)"
    with g(2) have eq: "r_hash (rows st ! g) = r_hash (rows st ! gb)"
      by simp
    from g(1) assms(3) have lt: "g < length (rows st)" "gb < length (rows st)"
      by (simp_all add: is_revision_def)
    from getByHash_nth [OF wf lt(1)]
    have "getByHash st (r_hash (rows st ! gb)) = Some g"
      by (simp only: eq)
    with getByHash_nth [OF wf lt(2)] have "g = gb"
      by simp
    with g(2) not_b show False
      by simp
  qed
  have only: "authoritative st sel = Some (r_hash (rows st ! ga))"
    if "\<forall>g. is_revision st sel g \<longrightarrow> g = ga \<or> g = gb"
  proof -
    from that g(1) have "g = ga \<or> g = gb"
      by blast
    with g(2) not_b have "m = ?a"
      by auto
    with m show ?thesis
      by (simp add: authoritative_def)
  qed
  from m hb have "authoritative st sel \<noteq> Some (r_hash (rows st ! gb))"
    by (simp add: authoritative_def)
  with ab only show ?thesis
    by blast
qed


theorem authoritative_tie_break_witness:
  "reachable ucast (deliver ucast [rec_G, rec_A, rec_B])
   \<and> is_revision (deliver ucast [rec_G, rec_A, rec_B]) [9] 1
   \<and> is_revision (deliver ucast [rec_G, rec_A, rec_B]) [9] 2
   \<and> readWeight (deliver ucast [rec_G, rec_A, rec_B]) 1 = 0
   \<and> readWeight (deliver ucast [rec_G, rec_A, rec_B]) 2 = 0
   \<and> hash_less [2] [3]
   \<and> authoritative (deliver ucast [rec_G, rec_A, rec_B]) [9] = Some [2]
   \<and> is_revision (deliver ucast [rec_G, rec_A, rec_B]) [7] 0
   \<and> is_revision (deliver ucast [rec_G, rec_A, rec_B]) [7] 1
   \<and> readWeight (deliver ucast [rec_G, rec_A, rec_B]) 0 = 7
   \<and> hash_less [2] [5]
   \<and> authoritative (deliver ucast [rec_G, rec_A, rec_B]) [7] = Some [5]"
proof -
  let ?st = "deliver ucast [rec_G, rec_A, rec_B]"
  have wf: "reachable ucast ?st"
    by (rule reachable_deliver)
  have r9: "is_revision ?st [9] 1" "is_revision ?st [9] 2"
    and r7: "is_revision ?st [7] 0" "is_revision ?st [7] 1"
    unfolding deliver_G_A_B by (simp_all add: is_revision_def rec_G_def rec_A_def rec_B_def)
  have w: "readWeight ?st 0 = 7" "readWeight ?st 1 = 0" "readWeight ?st 2 = 0"
    unfolding deliver_G_A_B by (simp_all add: readWeight_def)
  have h: "r_hash (rows ?st ! 0) = [5]" "r_hash (rows ?st ! 1) = [2]"
      "r_hash (rows ?st ! 2) = [3]"
    unfolding deliver_G_A_B by (simp_all add: rec_G_def rec_A_def rec_B_def)
  have only9: "\<forall>g. is_revision ?st [9] g \<longrightarrow> g = 1 \<or> g = 2"
    unfolding deliver_G_A_B
    by (auto simp: is_revision_def rec_G_def rec_A_def rec_B_def less_Suc_eq numeral_3_eq_3)
  have only7: "\<forall>g. is_revision ?st [7] g \<longrightarrow> g = 0 \<or> g = 1"
    unfolding deliver_G_A_B
    by (auto simp: is_revision_def rec_G_def rec_A_def rec_B_def less_Suc_eq numeral_3_eq_3)
  have c9: "readWeight ?st 2 < readWeight ?st 1
       \<or> (readWeight ?st 1 = readWeight ?st 2
           \<and> hash_less (r_hash (rows ?st ! 1)) (r_hash (rows ?st ! 2)))"
    unfolding w h by simp
  have c7: "readWeight ?st 1 < readWeight ?st 0
       \<or> (readWeight ?st 0 = readWeight ?st 1
           \<and> hash_less (r_hash (rows ?st ! 0)) (r_hash (rows ?st ! 1)))"
    unfolding w h by simp
  have "(1 :: nat) \<noteq> 2" and "(0 :: nat) \<noteq> 1"
    by simp_all
  from authoritative_tie_break [OF wf r9 this(1) c9] authoritative_tie_break [OF wf r7 this(2) c7]
    only9 only7
  have "authoritative ?st [9] = Some [2]" and "authoritative ?st [7] = Some [5]"
    by (simp_all only: h)
  with wf r9 r7 w show ?thesis
    by simp
qed

subsection \<open>The reported weight\<close>










end
